theory Spec2Isabelle
  imports Main "HOL-Library.Word"
begin

unbundle bit_operations_syntax

section \<open>Data model of quick\_xor\_hash.cpp\<close>

text \<open>
  \<^verbatim>\<open>uint8_t\<close> is \<open>8 word\<close>, \<^verbatim>\<open>uint64_t\<close> and \<^verbatim>\<open>size_t\<close> are \<open>64 word\<close>, the promoted
  \<^verbatim>\<open>int\<close> of a C++ shift expression is \<open>32 word\<close>.  A \<^verbatim>\<open>std::array<uint8_t, N>\<close> is a
  list of bytes whose length is \<open>N\<close>; index \<open>i\<close> of the array is position \<open>i\<close> of
  the list.  Loop counters that stay far below \<open>2 ^ 64\<close> are natural numbers.
\<close>

type_synonym byte = "8 word"
type_synonym block_t = "byte list"

definition BYTES_PER_BLOCK :: nat where
  "BYTES_PER_BLOCK = 20"

definition BLOCK_UNIT_SIZE :: nat where
  "BLOCK_UNIT_SIZE = BYTES_PER_BLOCK * 8"

subsection \<open>Shifts of the promoted operand\<close>

text \<open>
  In \<^verbatim>\<open>block[i] >> n\<close> and \<^verbatim>\<open>block[i] << n\<close> the left operand is promoted to a
  32-bit \<^verbatim>\<open>int\<close>; the count \<open>n\<close> is a \<^verbatim>\<open>size_t\<close>.  A count that is not below the
  width of the promoted operand has no defined result in C++: the model returns
  \<open>None\<close> there.
\<close>

definition shr_int :: "32 word \<Rightarrow> 64 word \<Rightarrow> 32 word option" where
  "shr_int x n = (if unat n < 32 then Some (drop_bit (unat n) x) else None)"

definition shl_int :: "32 word \<Rightarrow> 64 word \<Rightarrow> 32 word option" where
  "shl_int x n = (if unat n < 32 then Some (push_bit (unat n) x) else None)"

subsection \<open>rotate\_block\<close>

text \<open>
  One iteration of the loop of \<^verbatim>\<open>rotate_block\<close>; the state is the block and
  \<^verbatim>\<open>carry\<close>.  \<^verbatim>\<open>sizeof(uint8_t) * 8 - shift\<close> is computed in \<^verbatim>\<open>size_t\<close> and wraps.
\<close>

definition rotate_step :: "64 word \<Rightarrow> block_t \<times> byte \<Rightarrow> nat \<Rightarrow> (block_t \<times> byte) option" where
  "rotate_step shift st i =
     (case st of (block, carry) \<Rightarrow>
        (case shr_int (ucast (block ! i)) (1 * 8 - shift) of
           None \<Rightarrow> None
         | Some hi \<Rightarrow>
             (case shl_int (ucast (block ! i)) shift of
                None \<Rightarrow> None
              | Some lo \<Rightarrow>
                  let temp_carry = (ucast hi :: byte)
                  in Some (block[i := ucast (lo OR ucast carry)], temp_carry))))"

fun rotate_loop :: "64 word \<Rightarrow> nat list \<Rightarrow> block_t \<times> byte \<Rightarrow> (block_t \<times> byte) option" where
  "rotate_loop shift [] st = Some st"
| "rotate_loop shift (i # is) st =
     (case rotate_step shift st i of
        None \<Rightarrow> None
      | Some st' \<Rightarrow> rotate_loop shift is st')"

definition rotate_block :: "block_t \<Rightarrow> 64 word \<Rightarrow> block_t option" where
  "rotate_block block shift =
     (case rotate_loop shift [0..<length block] (block, 0) of
        None \<Rightarrow> None
      | Some (block', carry) \<Rightarrow> Some (block'[0 := block' ! 0 OR carry]))"

subsection \<open>reverse\_block and xor\<close>

definition swap_bytes :: "nat \<Rightarrow> nat \<Rightarrow> block_t \<Rightarrow> block_t" where
  "swap_bytes i j block = block[i := block ! j, j := block ! i]"

definition reverse_block :: "block_t \<Rightarrow> block_t" where
  "reverse_block block =
     fold (\<lambda>i b. swap_bytes i (length b - i - 1) b) [0..<length block div 2] block"

text \<open>
  \<^verbatim>\<open>xor(lhs, rhs)\<close>: every index of \<open>lhs\<close> is updated once, from the same index of
  \<open>rhs\<close>.  The same loop shape folds a chunk into \<^verbatim>\<open>hash_data\<close>.
\<close>

definition xor_block :: "byte list \<Rightarrow> byte list \<Rightarrow> byte list" where
  "xor_block lhs rhs = map (\<lambda>i. lhs ! i XOR rhs ! i) [0..<length lhs]"

subsection \<open>Accumulation loop\<close>

text \<open>
  The stream is the list of bytes it still delivers.  \<^verbatim>\<open>input.read(buf, 160)\<close>
  takes up to 160 of them, \<^verbatim>\<open>gcount()\<close> is how many it took.  The state of the
  \<^verbatim>\<open>while\<close> loop is the stream, \<^verbatim>\<open>count\<close> and \<^verbatim>\<open>hash_data\<close>.
\<close>

function read_loop :: "byte list \<Rightarrow> 64 word \<Rightarrow> byte list \<Rightarrow> 64 word \<times> byte list" where
  "read_loop input count hash_data =
     (let got = take BLOCK_UNIT_SIZE input;
          count' = count + of_nat (length got)
      in if length got \<noteq> BLOCK_UNIT_SIZE
         then (count', xor_block hash_data (got @ replicate (BLOCK_UNIT_SIZE - length got) 0))
         else read_loop (drop BLOCK_UNIT_SIZE input) count' (xor_block hash_data got))"
  by pat_completeness auto
termination
  by (relation "measure (\<lambda>(input, count, hash_data). length input)")
     (auto simp: BLOCK_UNIT_SIZE_def BYTES_PER_BLOCK_def)

declare read_loop.simps [simp del]

subsection \<open>Scatter into eight blocks\<close>

definition scatter_dest :: "nat \<Rightarrow> nat \<times> nat" where
  "scatter_dest i =
     (let mod_index = (i * 11) mod BLOCK_UNIT_SIZE;
          blocks_index = mod_index mod 8;
          byte_index = mod_index div 8
      in (blocks_index, byte_index))"

definition scatter_step :: "byte list \<Rightarrow> nat \<Rightarrow> block_t list \<Rightarrow> block_t list" where
  "scatter_step hash_data i blocks =
     (case scatter_dest i of
        (blocks_index, byte_index) \<Rightarrow>
          blocks[blocks_index := (blocks ! blocks_index)[byte_index := hash_data ! i]])"

definition scatter :: "byte list \<Rightarrow> block_t list" where
  "scatter hash_data =
     fold (scatter_step hash_data) [0..<BLOCK_UNIT_SIZE]
       (replicate 8 (replicate BYTES_PER_BLOCK 0))"

subsection \<open>Rotate and combine\<close>

text \<open>
  \<^verbatim>\<open>block\<close> is a reference to \<^verbatim>\<open>blocks[0]\<close>; \<^verbatim>\<open>rotate_block\<close> rewrites \<^verbatim>\<open>blocks[i]\<close>
  in place before \<^verbatim>\<open>xor\<close> reads it.
\<close>

fun combine_loop :: "nat list \<Rightarrow> block_t list \<Rightarrow> block_t list option" where
  "combine_loop [] blocks = Some blocks"
| "combine_loop (i # is) blocks =
     (case rotate_block (blocks ! i) (of_nat i) of
        None \<Rightarrow> None
      | Some r \<Rightarrow>
          (let blocks' = blocks[i := r]
           in combine_loop is (blocks'[0 := xor_block (blocks' ! 0) (blocks' ! i)])))"

subsection \<open>Length block and the whole function\<close>

definition length_block :: "64 word \<Rightarrow> block_t" where
  "length_block count =
     fold (\<lambda>i lb. lb[8 - i - 1 := ucast (drop_bit (i * 8) count)]) [0..<8]
       (replicate BYTES_PER_BLOCK 0)"

definition quick_xor_hash :: "byte list \<Rightarrow> block_t option" where
  "quick_xor_hash input =
     (case read_loop input 0 (replicate BLOCK_UNIT_SIZE 0) of
        (count, hash_data) \<Rightarrow>
          (case combine_loop [1..<8] (scatter hash_data) of
             None \<Rightarrow> None
           | Some blocks \<Rightarrow>
               Some (xor_block (reverse_block (blocks ! 0)) (length_block count))))"

subsection \<open>File access and the command line\<close>

text \<open>
  A file system maps a name to the content of the file, \<open>None\<close> when the file cannot be
  opened.  \<^verbatim>\<open>quick_xor_hash_file\<close> constructs the \<^verbatim>\<open>std::ifstream\<close> and passes it on
  without looking at its state; a stream that failed to open delivers no byte, so every
  \<^verbatim>\<open>read\<close> on it has \<^verbatim>\<open>gcount() = 0\<close>.  No exception mask is set on the stream.
\<close>

type_synonym filesystem = "string \<Rightarrow> byte list option"

definition quick_xor_hash_file :: "filesystem \<Rightarrow> string \<Rightarrow> block_t option" where
  "quick_xor_hash_file fs filename =
     quick_xor_hash (case fs filename of None \<Rightarrow> [] | Some content \<Rightarrow> content)"

record outcome =
  exit_code :: int
  std_out :: string
  std_err :: string

definition hex_digit :: "nat \<Rightarrow> char" where
  "hex_digit d = ''0123456789abcdef'' ! d"

text \<open>\<^verbatim>\<open>std::hex << std::setw(2) << std::setfill('0')\<close> of one byte.\<close>

definition hex_byte :: "byte \<Rightarrow> string" where
  "hex_byte b = [hex_digit (unat b div 16), hex_digit (unat b mod 16)]"

text \<open>
  \<^verbatim>\<open>main\<close> with \<^verbatim>\<open>argv\<close> as a list (\<^verbatim>\<open>argc\<close> is its length).  Nothing that the \<^verbatim>\<open>try\<close> block
  calls throws, so the \<^verbatim>\<open>catch\<close> branch with \<^verbatim>\<open>return 2\<close> has no path leading to it.
\<close>

definition main :: "filesystem \<Rightarrow> string list \<Rightarrow> outcome option" where
  "main fs argv =
     (if length argv \<noteq> 2
      then Some \<lparr>exit_code = 1, std_out = [],
                  std_err = ''Usage: quick_xor_hash.exe filename'' @ [CHR 0x0A]\<rparr>
      else (case quick_xor_hash_file fs (argv ! 1) of
              None \<Rightarrow> None
            | Some result \<Rightarrow>
                Some \<lparr>exit_code = 0,
                      std_out = concat (map hex_byte (rev result)) @ [CHR 0x0A],
                      std_err = []\<rparr>))"

section \<open>Blocks as 160-bit values\<close>

text \<open>
  \<^verbatim>\<open>rotate_block\<close> carries the high bits of \<^verbatim>\<open>block[i]\<close> into \<^verbatim>\<open>block[i + 1]\<close>, and \<^verbatim>\<open>main\<close>
  prints \<^verbatim>\<open>block[19]\<close> first: index 0 of a \<^verbatim>\<open>block_t\<close> holds the eight lowest-order bits
  of the 160-bit value the array stands for.
\<close>

type_synonym block = "160 word"

definition byte_at :: "'a::len word \<Rightarrow> nat \<Rightarrow> byte" where
  "byte_at w k = ucast (drop_bit (8 * k) w)"

definition bytes_of_block :: "block \<Rightarrow> block_t" where
  "bytes_of_block w = map (byte_at w) [0..<BYTES_PER_BLOCK]"

definition block_of_bytes :: "block_t \<Rightarrow> block" where
  "block_of_bytes b = word_rcat (rev b)"

text \<open>
  The slot \<open>(k, q)\<close> of the block set is byte \<open>q\<close> of block \<open>k\<close>.  \<open>scatter_src\<close> names the
  index of \<^verbatim>\<open>hash_data\<close> that the scatter loop writes there (131 is the inverse of 11
  modulo 160); it is used in the proofs only.
\<close>

definition scatter_src :: "nat \<times> nat \<Rightarrow> nat" where
  "scatter_src kq = ((8 * snd kq + fst kq) * 131) mod 160"

text \<open>
  The 160-bit value that the combining loop leaves in \<^verbatim>\<open>blocks[0]\<close>, as a function of the
  block set it starts from; also used in the proofs only.
\<close>

definition combined :: "block_t list \<Rightarrow> block" where
  "combined bs =
     fold (\<lambda>i w. w XOR word_rotl i (block_of_bytes (bs ! i))) [1..<8] (block_of_bytes (bs ! 0))"

section \<open>The reference formulation\<close>

text \<open>
  The pseudocode in the header comment of the source file, over 160-bit values.
  \<open>word_rcat\<close> concatenates most significant byte first, which is the order in which a
  block is written out (\<^verbatim>\<open>00010203...\<close>).  In \<open>ref_extend64\<close> the eight bytes of the
  integer sit in the low 64 bits of the block, least significant byte first in that order.
\<close>

definition ref_zero :: block where
  "ref_zero = 0"

definition ref_reverse :: "block \<Rightarrow> block" where
  "ref_reverse b = word_rcat (map (byte_at b) [0..<20])"

definition ref_extend8 :: "byte \<Rightarrow> block" where
  "ref_extend8 b = ucast b"

definition ref_extend64 :: "64 word \<Rightarrow> block" where
  "ref_extend64 i = word_rcat (map (byte_at i) [0..<8])"

definition ref_rotate :: "block \<Rightarrow> nat \<Rightarrow> block" where
  "ref_rotate bl n = word_rotl n bl"

definition ref_xor :: "block \<Rightarrow> block \<Rightarrow> block" where
  "ref_xor bl1 bl2 = bl1 XOR bl2"

text \<open>\<open>XorHash0_loop\<close> is the value of \<^verbatim>\<open>ret\<close> when the loop of \<^verbatim>\<open>XorHash0\<close> ends.\<close>

definition XorHash0_loop :: "byte list \<Rightarrow> block" where
  "XorHash0_loop rgb =
     fold (\<lambda>i ret. ref_xor ret (ref_rotate (ref_extend8 (rgb ! i)) (i * 11)))
       [0..<length rgb] ref_zero"

definition XorHash0 :: "byte list \<Rightarrow> block" where
  "XorHash0 rgb = ref_reverse (XorHash0_loop rgb)"

definition XorHash :: "byte list \<Rightarrow> block" where
  "XorHash rgb = ref_xor (ref_extend64 (of_nat (length rgb))) (XorHash0 rgb)"

section \<open>rotate\_block is a rotation of the 160-bit value\<close>

lemma promote_shl: "n \<le> 8 \<Longrightarrow> (ucast (push_bit n (ucast (b::byte) :: 32 word) OR ucast (c::byte)) :: byte) = push_bit n b OR c"
  by (rule bit_word_eqI) (auto simp add: bit_simps)

lemma promote_shr: "(ucast (drop_bit n (ucast (b::byte) :: 32 word)) :: byte) = drop_bit n b"
  by (rule bit_word_eqI) (auto simp add: bit_simps dest: bit_imp_le_length)

lemma size_t_sub: "unat (shift :: 64 word) \<le> 8 \<Longrightarrow> unat (8 - shift) = 8 - unat shift"
  by (simp add: unat_sub_if' word_le_nat_alt) 

lemma rotate_step_small:
  assumes "unat shift \<le> 8"
  shows "rotate_step shift (block, carry) i =
     Some (block[i := push_bit (unat shift) (block ! i) OR carry], drop_bit (8 - unat shift) (block ! i))"
  using assms by (simp add: rotate_step_def shr_int_def shl_int_def size_t_sub promote_shl promote_shr)

lemma size_t_sub_wrap: "8 < unat (shift :: 64 word) \<Longrightarrow> unat shift < 32 \<Longrightarrow> \<not> unat (8 - shift) < 32"
  by (simp add: unat_sub_if' word_le_nat_alt) 

lemma rotate_step_large:
  assumes "8 < unat shift"
  shows "rotate_step shift (block, carry) i = None"
  using assms size_t_sub_wrap[of shift] by (cases "unat shift < 32") (auto simp add: rotate_step_def shr_int_def shl_int_def split: option.splits)

lemma rotate_loop_append:
  "rotate_loop shift (xs @ ys) st =
     (case rotate_loop shift xs st of None \<Rightarrow> None | Some st' \<Rightarrow> rotate_loop shift ys st')"
  by (induction xs arbitrary: st) (auto split: option.splits)

lemma rotate_loop_small:
  assumes "unat shift \<le> 8" and "n \<le> length block"
  shows "\<exists>block' carry'. rotate_loop shift [0..<n] (block, 0) = Some (block', carry')
     \<and> length block' = length block
     \<and> (\<forall>i<n. block' ! i = push_bit (unat shift) (block ! i) OR
                   (if i = 0 then 0 else drop_bit (8 - unat shift) (block ! (i - 1))))
     \<and> (\<forall>i\<ge>n. block' ! i = block ! i)
     \<and> carry' = (if n = 0 then 0 else drop_bit (8 - unat shift) (block ! (n - 1)))"
  using assms(2)
proof (induction n)
  case 0
  then show ?case by simp
next
  case (Suc n)
  then obtain b c where st: "rotate_loop shift [0..<n] (block, 0) = Some (b, c)"
    and len: "length b = length block"
    and lo: "\<forall>i<n. b ! i = push_bit (unat shift) (block ! i) OR
                   (if i = 0 then 0 else drop_bit (8 - unat shift) (block ! (i - 1)))"
    and hi: "\<forall>i\<ge>n. b ! i = block ! i"
    and c: "c = (if n = 0 then 0 else drop_bit (8 - unat shift) (block ! (n - 1)))"
    by auto
  have step: "rotate_loop shift [0..<Suc n] (block, 0) =
      Some (b[n := push_bit (unat shift) (b ! n) OR c], drop_bit (8 - unat shift) (b ! n))"
    by (simp add: rotate_loop_append st rotate_step_small[OF assms(1)])
  from Suc.prems have nlt: "n < length b" by (simp add: len) 
  show ?case
    unfolding step using len lo hi c nlt
    by (auto simp add: nth_list_update less_Suc_eq)
qed


lemma rotate_block_small_nth:
  assumes "unat shift \<le> 8" and "length block = 20"
  shows "\<exists>block'. rotate_block block shift = Some block' \<and> length block' = 20
     \<and> (\<forall>i<20. block' ! i = push_bit (unat shift) (block ! i) OR
                   drop_bit (8 - unat shift) (block ! ((i + 19) mod 20)))"
proof -
  from rotate_loop_small[OF assms(1), of "length block" block]
  obtain b c where st: "rotate_loop shift [0..<length block] (block, 0) = Some (b, c)"
    and len: "length b = length block"
    and lo: "\<forall>i<20. b ! i = push_bit (unat shift) (block ! i) OR
                   (if i = 0 then 0 else drop_bit (8 - unat shift) (block ! (i - 1)))"
    and c: "c = drop_bit (8 - unat shift) (block ! 19)"
    using assms(2) by auto
  have rb: "rotate_block block shift = Some (b[0 := b ! 0 OR c])"
    by (simp add: rotate_block_def st)
  have "\<forall>i<20. (b[0 := b ! 0 OR c]) ! i = push_bit (unat shift) (block ! i) OR
                   drop_bit (8 - unat shift) (block ! ((i + 19) mod 20))"
  proof (intro allI impI)
    fix i :: nat assume i: "i < 20"
    show "(b[0 := b ! 0 OR c]) ! i = push_bit (unat shift) (block ! i) OR
                   drop_bit (8 - unat shift) (block ! ((i + 19) mod 20))"
    proof (cases "i = 0")
      case True
      then show ?thesis using lo c len assms(2) by simp
    next
      case False
      then have "(i + 19) mod 20 = i - 1" using i by (simp add: mod_if)
      then show ?thesis using False lo i by simp
    qed
  qed
  then show ?thesis using rb len assms(2) by simp
qed

lemma bit_block_of_bytes:
  "bit (block_of_bytes b) n \<longleftrightarrow> n < 160 \<and> n div 8 < length b \<and> bit (b ! (n div 8)) (n mod 8)"
  using bit_horner_sum_uint_exp_iff[where 'a=8 and ws=b and n=n]
  by (simp add: block_of_bytes_def word_rcat_def bit_word_of_int_iff)

lemma bit_byte_at:
  "bit (byte_at w k) n \<longleftrightarrow> n < 8 \<and> bit w (8 * k + n)"
  by (auto simp add: byte_at_def bit_simps)

lemma length_bytes_of_block [simp]: "length (bytes_of_block w) = 20"
  by (simp add: bytes_of_block_def BYTES_PER_BLOCK_def)

lemma nth_bytes_of_block: "i < 20 \<Longrightarrow> bytes_of_block w ! i = byte_at w i"
  by (simp add: bytes_of_block_def BYTES_PER_BLOCK_def)

lemma block_of_bytes_inverse: "block_of_bytes (bytes_of_block w) = w"
proof (rule bit_word_eqI)
  fix n assume "n < LENGTH(160)"
  then have "n < 160" "n div 8 < 20" by simp_all
  then show "bit (block_of_bytes (bytes_of_block w)) n = bit w n"
    by (simp add: bit_block_of_bytes nth_bytes_of_block bit_byte_at)
qed

lemma bytes_of_block_inverse:
  assumes "length b = 20" shows "bytes_of_block (block_of_bytes b) = b"
proof (rule nth_equalityI)
  show "length (bytes_of_block (block_of_bytes b)) = length b" using assms by simp
next
  fix i assume "i < length (bytes_of_block (block_of_bytes b))"
  then have i: "i < 20" by simp
  show "bytes_of_block (block_of_bytes b) ! i = b ! i"
    using i assms
    by (intro bit_word_eqI) (auto simp add: nth_bytes_of_block bit_byte_at bit_block_of_bytes)
qed

lemma rotl_index_hi:
  fixes p s :: nat
  assumes "p < 160" "s \<le> p mod 8"
  shows "(p + (160 - s)) mod 160 = p - s" "(p - s) div 8 = p div 8" "(p - s) mod 8 = p mod 8 - s" 
proof -
  have sp: "s \<le> p" using assms(2) by (meson mod_less_eq_dividend order_trans)
  have "p + (160 - s) = (p - s) + 160" using sp assms by simp
  then have "(p + (160 - s)) mod 160 = ((p - s) + 160) mod 160" by (rule arg_cong)
  also have "\<dots> = p - s" using assms(1) by (simp del: add_diff_assoc add_diff_assoc2)
  finally show "(p + (160 - s)) mod 160 = p - s" .
  have eq: "p - s = 8 * (p div 8) + (p mod 8 - s)" using assms(2) by (simp add: algebra_simps)
  have lt: "p mod 8 - s < 8" by (simp add: less_imp_diff_less)
  show "(p - s) div 8 = p div 8" by (subst eq) (simp add: lt)
  show "(p - s) mod 8 = p mod 8 - s" by (subst eq) (simp add: lt)
qed

lemma rotl_index_lo:
  fixes p s :: nat
  assumes "p < 160" "p mod 8 < s" "s \<le> 8"
  shows  "(p + (160 - s)) mod 160 div 8 = (p div 8 + 19) mod 20"
    and "(p + (160 - s)) mod 160 mod 8 = p mod 8 + 8 - s"
proof -
  define q r where "q = p div 8" and "r = p mod 8"
  have p: "p = 8 * q + r" and r: "r < s" and q: "q < 20" using assms by (simp_all add: q_def r_def)
  have A: "(p + (160 - s)) mod 160 = 8 * ((q + 19) mod 20) + (r + 8 - s)"
  proof (cases "q = 0")
    case True
    then show ?thesis using p r assms(3) by simp
  next
    case False
    then have "(q + 19) mod 20 = q - 1" using q by (simp add: mod_if)
    moreover have "p + (160 - s) = (8 * (q - 1) + (r + 8 - s)) + 160" using False p r assms(3) by simp
    moreover have "8 * (q - 1) + (r + 8 - s) < 160" using False q r assms(3) by simp
    ultimately show ?thesis by (simp only: mod_add_self2 mod_less)
  qed
  have lt: "r + 8 - s < 8" using r assms(3) by simp
  show "(p + (160 - s)) mod 160 div 8 = (p div 8 + 19) mod 20"
    unfolding A using lt by (simp add: q_def)
  show "(p + (160 - s)) mod 160 mod 8 = p mod 8 + 8 - s"
    unfolding A using lt by (simp add: r_def)
qed


lemma block_of_bytes_rotl:
  assumes s: "s \<le> 8" and len: "length b = 20" "length b' = 20"
    and nth: "\<forall>i<20. b' ! i = push_bit s (b ! i) OR drop_bit (8 - s) (b ! ((i + 19) mod 20))"
  shows "block_of_bytes b' = word_rotl s (block_of_bytes b)"
proof (rule bit_word_eqI)
  fix p assume "p < LENGTH(160)"
  then have p: "p < 160" and q: "p div 8 < 20" by simp_all
  define p' where "p' = (p + (160 - s)) mod 160"
  have p': "p' < 160" "p' div 8 < 20" by (simp_all add: p'_def less_mult_imp_div_less)
  have smod: "s mod 160 = s" using s by simp
  have R: "bit (word_rotl s (block_of_bytes b)) p = bit (b ! (p' div 8)) (p' mod 8)"
    using p p' len by (simp add: bit_word_rotl_iff smod bit_block_of_bytes flip: p'_def)
  have L: "bit (block_of_bytes b') p =
      (s \<le> p mod 8 \<and> bit (b ! (p div 8)) (p mod 8 - s)
       \<or> bit (b ! ((p div 8 + 19) mod 20)) (8 - s + p mod 8))"
    using p q len nth by (simp add: bit_block_of_bytes bit_or_iff bit_push_bit_iff bit_drop_bit_eq)
  show "bit (block_of_bytes b') p = bit (word_rotl s (block_of_bytes b)) p"
  proof (cases "s \<le> p mod 8")
    case True
    then have "\<not> bit (b ! ((p div 8 + 19) mod 20)) (8 - s + p mod 8)"
      using s by (auto dest!: bit_imp_le_length)
    moreover have "p' div 8 = p div 8" "p' mod 8 = p mod 8 - s"
      using rotl_index_hi[OF p True] by (simp_all add: p'_def)
    ultimately show ?thesis using True by (simp add: L R)
  next
    case False
    then have lt: "p mod 8 < s" by simp
    have "p' div 8 = (p div 8 + 19) mod 20" "p' mod 8 = p mod 8 + 8 - s"
      using rotl_index_lo[OF p lt s] by (simp_all add: p'_def)
    moreover have "8 - s + p mod 8 = p mod 8 + 8 - s" using s by simp
    ultimately show ?thesis using False by (simp add: L R)
  qed
qed

lemma rotate_block_small:
  assumes "unat shift \<le> 8" and "length block = 20"
  shows "rotate_block block shift = Some (bytes_of_block (word_rotl (unat shift) (block_of_bytes block)))"
proof -
  from rotate_block_small_nth[OF assms] obtain b' where
    rb: "rotate_block block shift = Some b'" and len: "length b' = 20"
    and nth: "\<forall>i<20. b' ! i = push_bit (unat shift) (block ! i) OR
                   drop_bit (8 - unat shift) (block ! ((i + 19) mod 20))"
    by blast
  have "block_of_bytes b' = word_rotl (unat shift) (block_of_bytes block)"
    by (rule block_of_bytes_rotl[OF assms(1) assms(2) len nth])
  then have "bytes_of_block (word_rotl (unat shift) (block_of_bytes block)) = b'"
    using bytes_of_block_inverse[OF len] by simp
  then show ?thesis using rb by simp
qed

lemma rotate_block_large:
  assumes "8 < unat shift" and "block \<noteq> []"
  shows "rotate_block block shift = None"
proof -
  from assms(2) have "[0..<length block] = 0 # [1..<length block]"
    by (simp add: upt_conv_Cons)
  then show ?thesis
    by (simp add: rotate_block_def rotate_step_large[OF assms(1)])
qed

section \<open>The scatter loop\<close>

lemma scatter_dest_range: "fst (scatter_dest i) < 8" "snd (scatter_dest i) < 20"
  by (simp_all add: scatter_dest_def BLOCK_UNIT_SIZE_def BYTES_PER_BLOCK_def Let_def less_mult_imp_div_less)

lemma scatter_dest_pos: "8 * snd (scatter_dest i) + fst (scatter_dest i) = (i * 11) mod 160"
  by (simp add: scatter_dest_def BLOCK_UNIT_SIZE_def BYTES_PER_BLOCK_def Let_def)

lemma mod_160_inverse: "((x::nat) * 11 mod 160 * 131) mod 160 = x mod 160"
  "((x::nat) * 131 mod 160 * 11) mod 160 = x mod 160"
proof -
  have one: "(x * 1441) mod 160 = x mod 160"
  proof -
    have "(x * 1441) mod 160 = (x * (1441 mod 160)) mod 160"
      by (rule mod_mult_right_eq[symmetric])
    then show ?thesis by simp
  qed
  have "(x * 11 mod 160 * 131) mod 160 = (x * 11 * 131) mod 160"
    by (rule mod_mult_left_eq)
  also have "x * 11 * 131 = x * 1441" by simp
  finally show "(x * 11 mod 160 * 131) mod 160 = x mod 160" using one by simp
  have "(x * 131 mod 160 * 11) mod 160 = (x * 131 * 11) mod 160"
    by (rule mod_mult_left_eq)
  also have "x * 131 * 11 = x * 1441" by simp
  finally show "(x * 131 mod 160 * 11) mod 160 = x mod 160" using one by simp
qed

lemma scatter_src_dest: assumes "i < 160" shows "scatter_src (scatter_dest i) = i"
proof -
  have "scatter_src (scatter_dest i) = ((i * 11) mod 160 * 131) mod 160"
    by (simp add: scatter_src_def scatter_dest_pos)
  also have "\<dots> = i" using assms by (simp only: mod_160_inverse mod_less)
  finally show ?thesis .
qed

lemma scatter_dest_src: assumes "k < 8" "q < 20" shows "scatter_dest (scatter_src (k, q)) = (k, q)"
proof -
  have "(scatter_src (k, q) * 11) mod 160 = (((8 * q + k) * 131) mod 160 * 11) mod 160"
    by (simp add: scatter_src_def)
  also have "\<dots> = (8 * q + k) mod 160" by (simp only: mod_160_inverse)
  also have "\<dots> = 8 * q + k" using assms by simp
  finally have "(scatter_src (k, q) * 11) mod 160 = 8 * q + k" .
  then show ?thesis using assms
    by (simp add: scatter_dest_def BLOCK_UNIT_SIZE_def BYTES_PER_BLOCK_def Let_def)
qed

lemma scatter_src_range: "scatter_src kq < 160"
  by (simp add: scatter_src_def)

lemma scatter_dest_bij: "bij_betw scatter_dest {..<160} ({..<8} \<times> {..<20})"
proof (rule bij_betw_byWitness[where f' = scatter_src])
  show "\<forall>i\<in>{..<160}. scatter_src (scatter_dest i) = i"
    by (simp add: scatter_src_dest)
  show "\<forall>kq\<in>{..<8} \<times> {..<20}. scatter_dest (scatter_src kq) = kq"
    by (auto simp add: scatter_dest_src)
  show "scatter_dest ` {..<160} \<subseteq> {..<8} \<times> {..<20}"
  proof
    fix kq assume "kq \<in> scatter_dest ` {..<160}"
    then obtain i where "kq = scatter_dest i" by blast
    then show "kq \<in> {..<8} \<times> {..<20}"
      by (simp add: mem_Times_iff scatter_dest_range)
  qed
  show "scatter_src ` ({..<8} \<times> {..<20}) \<subseteq> {..<160}"
    using scatter_src_range by auto
qed

lemma scatter_dest_inj: "inj_on scatter_dest {..<160}"
  using scatter_dest_bij by (rule bij_betw_imp_inj_on)


lemma scatter_step_length:
  "length (scatter_step h i bs) = length bs"
  by (simp add: scatter_step_def split: prod.splits)

lemma scatter_step_nth_length:
  "length (scatter_step h i bs ! k) = length (bs ! k)"
  by (cases "fst (scatter_dest i) < length bs")
     (auto simp add: scatter_step_def nth_list_update list_update_beyond not_less split: prod.splits)

lemma scatter_fold_length:
  "length (fold (scatter_step h) is bs) = length bs"
  by (induction "is" arbitrary: bs) (simp_all add: scatter_step_length)

lemma scatter_fold_nth_length:
  "length (fold (scatter_step h) is bs ! k) = length (bs ! k)"
  by (induction "is" arbitrary: bs) (simp_all add: scatter_step_nth_length)

lemma scatter_step_other:
  assumes "scatter_dest i \<noteq> (k, q)"
  shows "scatter_step h i bs ! k ! q = bs ! k ! q"
proof (cases "fst (scatter_dest i) < length bs")
  case True
  then show ?thesis using assms
    by (auto simp add: scatter_step_def nth_list_update split: prod.splits)
next
  case False
  then show ?thesis
    by (auto simp add: scatter_step_def list_update_beyond not_less split: prod.splits)
qed

lemma scatter_step_hit:
  assumes "scatter_dest i = (k, q)" "k < length bs" "q < length (bs ! k)"
  shows "scatter_step h i bs ! k ! q = h ! i"
  using assms by (simp add: scatter_step_def)

lemma scatter_fold_other:
  assumes "(k, q) \<notin> scatter_dest ` set is"
  shows "fold (scatter_step h) is bs ! k ! q = bs ! k ! q"
  using assms
proof (induction "is" arbitrary: bs)
  case Nil
  then show ?case by simp
next
  case (Cons i "is")
  then have "scatter_dest i \<noteq> (k, q)" and "(k, q) \<notin> scatter_dest ` set is" by auto
  then show ?case using Cons.IH by (simp add: scatter_step_other)
qed

lemma scatter_fold_hit:
  assumes "i \<in> set is" "inj_on scatter_dest (set is)"
    and "fst (scatter_dest i) < length bs"
    and "snd (scatter_dest i) < length (bs ! fst (scatter_dest i))"
  shows "fold (scatter_step h) is bs ! fst (scatter_dest i) ! snd (scatter_dest i) = h ! i"
  using assms
proof (induction "is" arbitrary: bs)
  case Nil
  then show ?case by simp
next
  case (Cons j "is")
  show ?case
  proof (cases "i \<in> set is")
    case True
    moreover have "inj_on scatter_dest (set is)"
      using Cons.prems(2) by (simp add: inj_on_def)
    ultimately show ?thesis
      using Cons.IH[of "scatter_step h j bs"] Cons.prems(3,4)
      by (simp add: scatter_step_length scatter_step_nth_length)
  next
    case False
    with Cons.prems(1) have ij: "i = j" by simp
    have "scatter_dest i \<notin> scatter_dest ` set is"
    proof
      assume "scatter_dest i \<in> scatter_dest ` set is"
      then obtain i' where "i' \<in> set is" "scatter_dest i = scatter_dest i'" by blast
      with Cons.prems(2) ij have "i = i'" by (auto simp add: inj_on_def)
      with \<open>i' \<in> set is\<close> False show False by simp
    qed
    then have "fold (scatter_step h) is (scatter_step h j bs) ! fst (scatter_dest i) ! snd (scatter_dest i)
        = scatter_step h j bs ! fst (scatter_dest i) ! snd (scatter_dest i)"
      by (intro scatter_fold_other) simp
    also have "\<dots> = h ! i"
      using scatter_step_hit[of j "fst (scatter_dest j)" "snd (scatter_dest j)" bs h]
        Cons.prems(3,4) ij by simp
    finally show ?thesis by simp
  qed
qed

lemma scatter_length: "length (scatter h) = 8"
  by (simp add: scatter_def scatter_fold_length)

lemma scatter_nth_length: "k < 8 \<Longrightarrow> length (scatter h ! k) = 20"
  by (simp add: scatter_def scatter_fold_nth_length BYTES_PER_BLOCK_def)

lemma scatter_at_dest:
  assumes "i < 160"
  shows "scatter h ! fst (scatter_dest i) ! snd (scatter_dest i) = h ! i"
  unfolding scatter_def
proof (rule scatter_fold_hit)
  show "i \<in> set [0..<BLOCK_UNIT_SIZE]"
    using assms by (simp add: BLOCK_UNIT_SIZE_def BYTES_PER_BLOCK_def)
  have "set [0..<BLOCK_UNIT_SIZE] = {..<160}"
    by (auto simp add: BLOCK_UNIT_SIZE_def BYTES_PER_BLOCK_def)
  then show "inj_on scatter_dest (set [0..<BLOCK_UNIT_SIZE])"
    using scatter_dest_inj by simp
  show "fst (scatter_dest i) < length (replicate 8 (replicate BYTES_PER_BLOCK (0::byte)))"
    by (simp add: scatter_dest_range)
  show "snd (scatter_dest i) < length (replicate 8 (replicate BYTES_PER_BLOCK (0::byte)) ! fst (scatter_dest i))"
    by (simp add: scatter_dest_range BYTES_PER_BLOCK_def)
qed

lemma scatter_nth:
  assumes "k < 8" "q < 20"
  shows "scatter h ! k ! q = h ! scatter_src (k, q)"
  using scatter_at_dest[of "scatter_src (k, q)" h] assms
  by (simp add: scatter_dest_src scatter_src_range)

section \<open>reverse\_block, xor and the combining loop\<close>

lemma list20:
  assumes "length (b :: 'a list) = 20"
  obtains b0 b1 b2 b3 b4 b5 b6 b7 b8 b9 b10 b11 b12 b13 b14 b15 b16 b17 b18 b19
  where "b = [b0, b1, b2, b3, b4, b5, b6, b7, b8, b9, b10, b11, b12, b13, b14, b15, b16, b17, b18, b19]"
  using assms by (auto simp add: numeral_eq_Suc length_Suc_conv)

lemma reverse_block_rev:
  assumes "length b = 20"
  shows "reverse_block b = rev b"
proof -
  from assms obtain b0 b1 b2 b3 b4 b5 b6 b7 b8 b9 b10 b11 b12 b13 b14 b15 b16 b17 b18 b19
    where b: "b = [b0, b1, b2, b3, b4, b5, b6, b7, b8, b9, b10, b11, b12, b13, b14, b15, b16, b17, b18, b19]"
    by (rule list20)
  have "[0..<length b div 2] = [0, 1, 2, 3, 4, 5, 6, 7, 8, 9]"
    unfolding b by (simp add: upt_rec_numeral)
  then show ?thesis
    unfolding reverse_block_def
    by (simp add: b swap_bytes_def)
qed

lemma length_xor_block [simp]: "length (xor_block a b) = length a"
  by (simp add: xor_block_def)

lemma nth_xor_block: "i < length a \<Longrightarrow> xor_block a b ! i = a ! i XOR b ! i"
  by (simp add: xor_block_def)


lemma block_of_bytes_xor:
  assumes "length a = 20" "length b = 20"
  shows "block_of_bytes (xor_block a b) = block_of_bytes a XOR block_of_bytes b"
proof (rule bit_word_eqI)
  fix n assume "n < LENGTH(160)"
  then have "n < 160" "n div 8 < 20" by simp_all
  then show "bit (block_of_bytes (xor_block a b)) n = bit (block_of_bytes a XOR block_of_bytes b) n"
    using assms by (simp add: bit_block_of_bytes nth_xor_block bit_xor_iff)
qed

lemma bytes_of_block_xor:
  "bytes_of_block (v XOR w) = xor_block (bytes_of_block v) (bytes_of_block w)"
proof -
  have "block_of_bytes (xor_block (bytes_of_block v) (bytes_of_block w)) = v XOR w"
    by (simp add: block_of_bytes_xor block_of_bytes_inverse)
  then have "bytes_of_block (v XOR w)
      = bytes_of_block (block_of_bytes (xor_block (bytes_of_block v) (bytes_of_block w)))"
    by simp
  then show ?thesis by (simp add: bytes_of_block_inverse)
qed

lemma unat_small_index: "i < 8 \<Longrightarrow> unat (of_nat i :: 64 word) = i"
  by (rule of_nat_inverse) simp_all

lemma combine_loop_value:
  assumes "\<forall>i\<in>set is. 1 \<le> i \<and> i < 8" and "distinct is"
    and "length bs = 8" and "\<forall>k<8. length (bs ! k) = 20"
  shows "\<exists>bs'. combine_loop is bs = Some bs' \<and> length bs' = 8
      \<and> (\<forall>k<8. length (bs' ! k) = 20)
      \<and> block_of_bytes (bs' ! 0)
          = fold (\<lambda>i w. w XOR word_rotl i (block_of_bytes (bs ! i))) is (block_of_bytes (bs ! 0))
      \<and> (\<forall>k. k \<notin> set is \<longrightarrow> k \<noteq> 0 \<longrightarrow> bs' ! k = bs ! k)"
  using assms
proof (induction "is" arbitrary: bs)
  case Nil
  then show ?case by simp
next
  case (Cons i "is")
  from Cons.prems have i: "1 \<le> i" "i < 8" and inotin: "i \<notin> set is" by simp_all
  define r where "r = bytes_of_block (word_rotl i (block_of_bytes (bs ! i)))"
  have leni: "length (bs ! i) = 20" using Cons.prems(4) i by simp
  have len0: "length (bs ! 0) = 20" using Cons.prems(4) by simp
  have rot: "rotate_block (bs ! i) (of_nat i) = Some r"
    using rotate_block_small[of "of_nat i" "bs ! i"] i leni
    by (simp add: unat_small_index r_def)
  define bs2 where "bs2 = (bs[i := r])[0 := xor_block (bs ! 0) r]"
  have step: "combine_loop (i # is) bs = combine_loop is bs2"
    using i Cons.prems(3) by (simp add: rot bs2_def Let_def)
  have len2: "length bs2 = 8" using Cons.prems(3) by (simp add: bs2_def)
  have nth2: "\<And>k. k < 8 \<Longrightarrow> bs2 ! k = (if k = 0 then xor_block (bs ! 0) r else if k = i then r else bs ! k)"
    using Cons.prems(3) by (simp add: bs2_def nth_list_update)
  have lens2: "\<forall>k<8. length (bs2 ! k) = 20"
    using Cons.prems(4) len0 by (simp add: nth2 r_def)
  from Cons.IH[of bs2] Cons.prems(1,2) len2 lens2
  obtain bs' where res: "combine_loop is bs2 = Some bs'" and len': "length bs' = 8"
    and lens': "\<forall>k<8. length (bs' ! k) = 20"
    and val: "block_of_bytes (bs' ! 0)
          = fold (\<lambda>i w. w XOR word_rotl i (block_of_bytes (bs2 ! i))) is (block_of_bytes (bs2 ! 0))"
    and rest: "\<forall>k. k \<notin> set is \<longrightarrow> k \<noteq> 0 \<longrightarrow> bs' ! k = bs2 ! k"
    by auto
  have same: "\<And>j. j \<in> set is \<Longrightarrow> bs2 ! j = bs ! j"
    using Cons.prems(1) inotin by (auto simp add: nth2)
  have f: "fold (\<lambda>i w. w XOR word_rotl i (block_of_bytes (bs2 ! i))) is v
      = fold (\<lambda>i w. w XOR word_rotl i (block_of_bytes (bs ! i))) is v" for v
    by (rule fold_cong) (simp_all add: same)
  have b0: "block_of_bytes (bs2 ! 0) = block_of_bytes (bs ! 0) XOR word_rotl i (block_of_bytes (bs ! i))"
    using len0 by (simp add: nth2 block_of_bytes_xor r_def block_of_bytes_inverse)
  have restbs: "\<forall>k. k \<notin> set (i # is) \<longrightarrow> k \<noteq> 0 \<longrightarrow> bs' ! k = bs ! k"
  proof (intro allI impI)
    fix k assume k: "k \<notin> set (i # is)" "k \<noteq> 0"
    then have "bs' ! k = bs2 ! k" using rest by simp
    also have "\<dots> = bs ! k" using k by (simp add: bs2_def)
    finally show "bs' ! k = bs ! k" .
  qed
  show ?case
    unfolding step using res len' lens' val restbs by (simp add: f b0)
qed

lemma word_rotl_xor:
  "word_rotl n (v XOR w) = word_rotl n v XOR word_rotl n (w :: 'a::len word)"
  by (rule bit_word_eqI) (simp add: bit_word_rotl_iff bit_xor_iff)

lemma combine_loop_1_8:
  assumes "length bs = 8" and "\<forall>k<8. length (bs ! k) = 20"
  shows "\<exists>bs'. combine_loop [1..<8] bs = Some bs' \<and> length (bs' ! 0) = 20
      \<and> block_of_bytes (bs' ! 0)
          = block_of_bytes (bs ! 0) XOR word_rotl 1 (block_of_bytes (bs ! 1))
            XOR word_rotl 2 (block_of_bytes (bs ! 2)) XOR word_rotl 3 (block_of_bytes (bs ! 3))
            XOR word_rotl 4 (block_of_bytes (bs ! 4)) XOR word_rotl 5 (block_of_bytes (bs ! 5))
            XOR word_rotl 6 (block_of_bytes (bs ! 6)) XOR word_rotl 7 (block_of_bytes (bs ! 7))"
proof -
  have l: "[1..<8] = [1, 2, 3, 4, 5, 6, 7::nat]"
    by (simp add: upt_conv_Cons)
  have prem1: "\<forall>i\<in>set [1..<8::nat]. 1 \<le> i \<and> i < 8" by simp
  have prem2: "distinct [1..<8::nat]" by simp
  from combine_loop_value[OF prem1 prem2 assms]
  obtain bs' where A: "combine_loop [1..<8] bs = Some bs'"
    and B: "\<forall>k<8. length (bs' ! k) = 20"
    and C: "block_of_bytes (bs' ! 0)
          = fold (\<lambda>i w. w XOR word_rotl i (block_of_bytes (bs ! i))) [1..<8] (block_of_bytes (bs ! 0))"
    by blast
  have D: "fold (\<lambda>i w. w XOR word_rotl i (block_of_bytes (bs ! i))) [1..<8] (block_of_bytes (bs ! 0))
      = block_of_bytes (bs ! 0) XOR word_rotl 1 (block_of_bytes (bs ! 1))
            XOR word_rotl 2 (block_of_bytes (bs ! 2)) XOR word_rotl 3 (block_of_bytes (bs ! 3))
            XOR word_rotl 4 (block_of_bytes (bs ! 4)) XOR word_rotl 5 (block_of_bytes (bs ! 5))
            XOR word_rotl 6 (block_of_bytes (bs ! 6)) XOR word_rotl 7 (block_of_bytes (bs ! 7))"
    unfolding l by (simp add: xor.assoc)
  from B have B0: "length (bs' ! 0) = 20" by simp
  show ?thesis
    by (intro exI[of _ bs'] conjI A B0 C[unfolded D])
qed

section \<open>The accumulation loop\<close>

lemma read_loop_short:
  assumes "length xs < 160"
  shows "read_loop xs c h = (c + of_nat (length xs), xor_block h (xs @ replicate (160 - length xs) 0))"
  using assms
  by (subst read_loop.simps) (simp add: BLOCK_UNIT_SIZE_def BYTES_PER_BLOCK_def Let_def)

lemma read_loop_full:
  assumes "160 \<le> length xs"
  shows "read_loop xs c h = read_loop (drop 160 xs) (c + 160) (xor_block h (take 160 xs))"
  using assms
  by (subst read_loop.simps) (simp add: BLOCK_UNIT_SIZE_def BYTES_PER_BLOCK_def Let_def min_def)

lemma read_loop_count: "fst (read_loop xs c h) = c + of_nat (length xs)"
proof (induction xs arbitrary: c h rule: length_induct)
  case (1 xs)
  show ?case
  proof (cases "length xs < 160")
    case True
    then show ?thesis by (simp add: read_loop_short)
  next
    case False
    then have ge: "160 \<le> length xs" by simp
    then have "length (drop 160 xs) < length xs" by simp
    with 1 have "fst (read_loop (drop 160 xs) (c + 160) (xor_block h (take 160 xs)))
        = c + 160 + of_nat (length (drop 160 xs))" by blast
    also have "\<dots> = c + of_nat (160 + (length xs - 160))" by (simp del: of_nat_diff)
    also have "160 + (length xs - 160) = length xs" using ge by simp
    finally show ?thesis by (simp add: read_loop_full[OF ge])
  qed
qed

lemma read_loop_length: "length (snd (read_loop xs c h)) = length h"
proof (induction xs arbitrary: c h rule: length_induct)
  case (1 xs)
  show ?case
  proof (cases "length xs < 160")
    case True
    then show ?thesis by (simp add: read_loop_short)
  next
    case False
    then have ge: "160 \<le> length xs" by simp
    then have "length (drop 160 xs) < length xs" by simp
    with 1 have "length (snd (read_loop (drop 160 xs) (c + 160) (xor_block h (take 160 xs))))
        = length (xor_block h (take 160 xs))" by blast
    then show ?thesis by (simp add: read_loop_full[OF ge])
  qed
qed

lemma xor_block_snoc_pad:
  assumes "length h = 160" "length xs < 160"
  shows "xor_block h ((xs @ [x]) @ replicate (160 - length (xs @ [x])) 0)
     = (xor_block h (xs @ replicate (160 - length xs) 0))
         [length xs := xor_block h (xs @ replicate (160 - length xs) 0) ! length xs XOR x]"
proof (rule nth_equalityI)
  show "length (xor_block h ((xs @ [x]) @ replicate (160 - length (xs @ [x])) 0))
      = length ((xor_block h (xs @ replicate (160 - length xs) 0))
         [length xs := xor_block h (xs @ replicate (160 - length xs) 0) ! length xs XOR x])"
    by simp
next
  fix i assume "i < length (xor_block h ((xs @ [x]) @ replicate (160 - length (xs @ [x])) 0))"
  then have i: "i < 160" using assms by simp
  consider "i < length xs" | "i = length xs" | "length xs < i" by linarith
  then show "xor_block h ((xs @ [x]) @ replicate (160 - length (xs @ [x])) 0) ! i
      = (xor_block h (xs @ replicate (160 - length xs) 0))
         [length xs := xor_block h (xs @ replicate (160 - length xs) 0) ! length xs XOR x] ! i"
  proof cases
    case 1
    then show ?thesis using i assms by (simp add: nth_xor_block nth_append)
  next
    case 2
    then show ?thesis using i assms by (simp add: nth_xor_block nth_append)
  next
    case 3
    then show ?thesis using i assms by (simp add: nth_xor_block nth_append)
  qed
qed

lemma xor_block_zeros:
  assumes "length h = n"
  shows "xor_block h (replicate n 0) = h"
  using assms by (intro nth_equalityI) (simp_all add: nth_xor_block)


lemma read_loop_snoc:
  assumes "length h = 160"
  shows "read_loop (xs @ [x]) c h =
     (fst (read_loop xs c h) + 1,
      (snd (read_loop xs c h))
        [length xs mod 160 := snd (read_loop xs c h) ! (length xs mod 160) XOR x])"
  using assms
proof (induction xs arbitrary: c h rule: length_induct)
  case (1 xs)
  note h = \<open>length h = 160\<close>
  consider "length xs < 159" | "length xs = 159" | "160 \<le> length xs" by linarith
  then show ?case
  proof cases
    case 1
    then have "length (xs @ [x]) < 160" "length xs < 160" by simp_all
    then show ?thesis
      using xor_block_snoc_pad[OF h \<open>length xs < 160\<close>, of x]
      by (simp add: read_loop_short)
  next
    case 2
    then have lt: "length xs < 160" by simp
    have "read_loop (xs @ [x]) c h = read_loop [] (c + 160) (xor_block h (xs @ [x]))"
      using 2 by (subst read_loop_full) simp_all
    also have "\<dots> = (c + 160, xor_block h (xs @ [x]))"
      using h by (simp add: read_loop_short xor_block_zeros)
    finally show ?thesis
      using xor_block_snoc_pad[OF h lt, of x] 2
      by (simp add: read_loop_short[OF lt])
  next
    case 3
    then have lt: "length (drop 160 xs) < length xs" by simp
    have h': "length (xor_block h (take 160 xs)) = 160" using h by simp
    have m: "(length xs - 160) mod 160 = length xs mod 160"
      using 3 by (simp add: le_mod_geq)
    have "read_loop (xs @ [x]) c h
        = read_loop (drop 160 xs @ [x]) (c + 160) (xor_block h (take 160 xs))"
      using 3 by (subst read_loop_full) simp_all
    also have "\<dots> = (fst (read_loop (drop 160 xs) (c + 160) (xor_block h (take 160 xs))) + 1,
      (snd (read_loop (drop 160 xs) (c + 160) (xor_block h (take 160 xs))))
        [length (drop 160 xs) mod 160 :=
           snd (read_loop (drop 160 xs) (c + 160) (xor_block h (take 160 xs)))
             ! (length (drop 160 xs) mod 160) XOR x])"
      using "1.IH" lt h' by blast
    finally show ?thesis
      by (simp add: read_loop_full[OF 3] m)
  qed
qed

lemma read_loop_nil:
  assumes "length h = 160"
  shows "read_loop [] c h = (c, h)"
  using assms by (simp add: read_loop_short xor_block_zeros)

section \<open>From the accumulator to the combined value\<close>

lemma scatter_src_eq_iff:
  assumes "k < 8" "q < 20" "m < 160"
  shows "scatter_src (k, q) = m \<longleftrightarrow> scatter_dest m = (k, q)"
  using assms scatter_dest_src[of k q] scatter_src_dest[of m] by auto

lemma scatter_update:
  assumes "m < 160" and len: "length h = 160"
  shows "scatter (h[m := v]) =
     (scatter h)[fst (scatter_dest m) := (scatter h ! fst (scatter_dest m))[snd (scatter_dest m) := v]]"
    (is "?L = ?R")
proof (rule nth_equalityI)
  show "length ?L = length ?R" by (simp add: scatter_length)
next
  fix k assume "k < length ?L"
  then have k: "k < 8" by (simp add: scatter_length)
  show "?L ! k = ?R ! k"
  proof (rule nth_equalityI)
    show "length (?L ! k) = length (?R ! k)"
      using k by (cases "fst (scatter_dest m) = k")
        (simp_all add: scatter_length scatter_nth_length nth_list_update)
  next
    fix q assume "q < length (?L ! k)"
    then have q: "q < 20" using k by (simp add: scatter_nth_length)
    have src: "scatter_src (k, q) < 160" by (rule scatter_src_range)
    show "?L ! k ! q = ?R ! k ! q"
    proof (cases "scatter_dest m = (k, q)")
      case True
      then have "scatter_src (k, q) = m" using scatter_src_eq_iff[OF k q assms(1)] by simp
      then show ?thesis using True k q assms
        by (simp add: scatter_nth scatter_length scatter_nth_length)
    next
      case False
      then have ne: "scatter_src (k, q) \<noteq> m" using scatter_src_eq_iff[OF k q assms(1)] by simp
      have "?R ! k ! q = scatter h ! k ! q"
        using False k q
        by (cases "fst (scatter_dest m) = k")
           (auto simp add: scatter_length scatter_nth_length nth_list_update prod_eq_iff)
      then show ?thesis using ne k q by (simp add: scatter_nth)
    qed
  qed
qed

lemma block_of_bytes_update:
  assumes "length b = 20" "q < 20"
  shows "block_of_bytes (b[q := b ! q XOR x]) = block_of_bytes b XOR push_bit (8 * q) (ucast x)"
proof (rule bit_word_eqI)
  fix n assume "n < LENGTH(160)"
  then have n: "n < 160" "n div 8 < 20" by simp_all
  show "bit (block_of_bytes (b[q := b ! q XOR x])) n
      = bit (block_of_bytes b XOR push_bit (8 * q) (ucast x)) n"
  proof (cases "n div 8 = q")
    case True
    then have "8 * q \<le> n" "n - 8 * q = n mod 8"
      by (auto simp add: minus_mult_div_eq_mod[symmetric] mult.commute)
    moreover have "n mod 8 < 160" using mod_less_divisor[of 8 n] by linarith
    ultimately show ?thesis using n assms True
      by (simp add: bit_block_of_bytes bit_xor_iff bit_push_bit_iff bit_ucast_iff)
  next
    case False
    have "\<not> (8 * q \<le> n \<and> bit x (n - 8 * q))"
    proof
      assume a: "8 * q \<le> n \<and> bit x (n - 8 * q)"
      then have "n - 8 * q < 8" by (auto dest: bit_imp_le_length)
      with a have "n div 8 = q" by (auto simp add: div_nat_eqI mult.commute)
      with False show False by simp
    qed
    then show ?thesis using n assms False
      by (auto simp add: bit_block_of_bytes bit_xor_iff bit_push_bit_iff bit_ucast_iff)
  qed
qed

lemma word_rotl_mod: "word_rotl (n mod LENGTH('a)) w = word_rotl n (w :: 'a::len word)"
  by (rule bit_word_eqI) (simp add: bit_word_rotl_iff)

lemma word_rotl_push_byte:
  assumes "q < 20" "k < 8"
  shows "word_rotl k (push_bit (8 * q) (ucast (x :: byte)) :: block) = word_rotl (8 * q + k) (ucast x)"
proof (rule bit_word_eqI)
  fix n assume "n < LENGTH(160)"
  then have n: "n < 160" by simp
  define j where "j = (n + (160 - k)) mod 160"
  have j: "j < 160" by (simp add: j_def)
  have eq: "(n + (160 - (8 * q + k))) mod 160 = (j + (160 - 8 * q)) mod 160"
  proof -
    have "(j + (160 - 8 * q)) mod 160 = (n + (160 - k) + (160 - 8 * q)) mod 160"
      unfolding j_def by (rule mod_add_left_eq)
    also have "n + (160 - k) + (160 - 8 * q) = (n + (160 - (8 * q + k))) + 160"
      using assms by linarith
    also have "((n + (160 - (8 * q + k))) + 160) mod 160 = (n + (160 - (8 * q + k))) mod 160"
      by (rule mod_add_self2)
    finally show ?thesis by simp
  qed
  have ge: "(j + (160 - 8 * q)) mod 160 = j - 8 * q" if "8 * q \<le> j"
  proof -
    have "j + (160 - 8 * q) = (j - 8 * q) + 160" using that assms by linarith
    then have "(j + (160 - 8 * q)) mod 160 = ((j - 8 * q) + 160) mod 160" by (rule arg_cong)
    also have "\<dots> = (j - 8 * q) mod 160" by (rule mod_add_self2)
    also have "\<dots> = j - 8 * q" using j by (intro mod_less) linarith
    finally show ?thesis .
  qed
  have lt: "8 \<le> (j + (160 - 8 * q)) mod 160" if "j < 8 * q"
  proof -
    have "j + (160 - 8 * q) < 160" using that assms by linarith
    then have "(j + (160 - 8 * q)) mod 160 = j + (160 - 8 * q)" by (rule mod_less)
    moreover have "8 \<le> j + (160 - 8 * q)" using assms by linarith
    ultimately show ?thesis by simp
  qed
  have kmod: "k mod 160 = k" "(8 * q + k) mod 160 = 8 * q + k" using assms by simp_all
  have L: "bit (word_rotl k (push_bit (8 * q) (ucast x)) :: block) n
      \<longleftrightarrow> 8 * q \<le> j \<and> bit x (j - 8 * q)"
  proof -
    have "j - 8 * q < 160" using j by linarith
    then show ?thesis
      using n j by (simp add: bit_word_rotl_iff kmod bit_push_bit_iff bit_ucast_iff flip: j_def)
  qed
  have R: "bit (word_rotl (8 * q + k) (ucast x) :: block) n
      \<longleftrightarrow> bit x ((j + (160 - 8 * q)) mod 160)"
    using n by (simp add: bit_word_rotl_iff kmod bit_ucast_iff eq)
  show "bit (word_rotl k (push_bit (8 * q) (ucast x)) :: block) n
      = bit (word_rotl (8 * q + k) (ucast x) :: block) n"
  proof (cases "8 * q \<le> j")
    case True
    then show ?thesis by (simp add: L R ge)
  next
    case False
    then have "8 \<le> (j + (160 - 8 * q)) mod 160" using lt by simp
    then have "\<not> bit x ((j + (160 - 8 * q)) mod 160)" by (auto dest: bit_imp_le_length)
    then show ?thesis using False by (simp add: L R)
  qed
qed


lemma combined_unfold:
  "combined bs = block_of_bytes (bs ! 0) XOR word_rotl 1 (block_of_bytes (bs ! 1))
            XOR word_rotl 2 (block_of_bytes (bs ! 2)) XOR word_rotl 3 (block_of_bytes (bs ! 3))
            XOR word_rotl 4 (block_of_bytes (bs ! 4)) XOR word_rotl 5 (block_of_bytes (bs ! 5))
            XOR word_rotl 6 (block_of_bytes (bs ! 6)) XOR word_rotl 7 (block_of_bytes (bs ! 7))"
proof -
  have l: "[1..<8] = [1, 2, 3, 4, 5, 6, 7::nat]"
    by (simp add: upt_conv_Cons)
  show ?thesis unfolding combined_def l by (simp add: xor.assoc)
qed

lemma word_rotl_0 [simp]: "word_rotl 0 w = w"
  by (rule bit_word_eqI) (simp add: bit_word_rotl_iff)

lemma combined_update:
  assumes "length bs = 8" "k < 8"
    and "block_of_bytes b' = block_of_bytes (bs ! k) XOR d"
  shows "combined (bs[k := b']) = combined bs XOR word_rotl k d"
proof -
  from assms(2) consider "k = 0" | "k = 1" | "k = 2" | "k = 3" | "k = 4" | "k = 5" | "k = 6" | "k = 7"
    by linarith
  then show ?thesis
    using assms(1,3)
    by cases (simp_all add: combined_unfold word_rotl_xor xor.assoc xor.left_commute xor.commute)
qed

lemma block_of_bytes_zeros: "block_of_bytes (replicate n 0) = 0"
  by (rule bit_word_eqI) (simp add: bit_block_of_bytes)

lemma scatter_zeros: "scatter (replicate 160 0) = replicate 8 (replicate 20 0)"
proof (rule nth_equalityI)
  show "length (scatter (replicate 160 0)) = length (replicate 8 (replicate 20 (0::byte)))"
    by (simp add: scatter_length)
next
  fix k assume "k < length (scatter (replicate 160 0))"
  then have k: "k < 8" by (simp add: scatter_length)
  show "scatter (replicate 160 0) ! k = replicate 8 (replicate 20 0) ! k"
  proof (rule nth_equalityI)
    show "length (scatter (replicate 160 0) ! k) = length (replicate 8 (replicate 20 (0::byte)) ! k)"
      using k by (simp add: scatter_nth_length)
  next
    fix q assume "q < length (scatter (replicate 160 0) ! k)"
    then have q: "q < 20" using k by (simp add: scatter_nth_length)
    show "scatter (replicate 160 0) ! k ! q = replicate 8 (replicate 20 0) ! k ! q"
      using k q by (simp add: scatter_nth scatter_src_range)
  qed
qed

lemma combined_zeros: "combined (replicate 8 (replicate 20 0)) = 0"
  by (simp add: combined_unfold block_of_bytes_zeros)

lemma word_rotl_zero [simp]: "word_rotl n 0 = 0"
  by (rule bit_word_eqI) (simp add: bit_word_rotl_iff)

lemma combined_scatter_update:
  assumes len: "length h = 160" and m: "m < 160"
  shows "combined (scatter (h[m := h ! m XOR x]))
     = combined (scatter h) XOR word_rotl (m * 11) (ucast x)"
proof -
  define k q where "k = fst (scatter_dest m)" and "q = snd (scatter_dest m)"
  have k: "k < 8" and q: "q < 20" by (simp_all add: k_def q_def scatter_dest_range)
  define b where "b = scatter h ! k"
  have lb: "length b = 20" using k by (simp add: b_def scatter_nth_length)
  have bq: "b ! q = h ! m" unfolding b_def k_def q_def by (rule scatter_at_dest[OF m])
  have "scatter (h[m := h ! m XOR x]) = (scatter h)[k := b[q := b ! q XOR x]]"
    unfolding bq unfolding b_def k_def q_def by (rule scatter_update[OF m len])
  moreover have "block_of_bytes (b[q := b ! q XOR x])
      = block_of_bytes (scatter h ! k) XOR push_bit (8 * q) (ucast x)"
    unfolding b_def[symmetric] by (rule block_of_bytes_update[OF lb q])
  ultimately have "combined (scatter (h[m := h ! m XOR x]))
      = combined (scatter h) XOR word_rotl k (push_bit (8 * q) (ucast x))"
    using combined_update[of "scatter h" k] k by (simp add: scatter_length)
  also have "word_rotl k (push_bit (8 * q) (ucast x) :: block) = word_rotl (8 * q + k) (ucast x)"
    by (rule word_rotl_push_byte[OF q k])
  also have "8 * q + k = (m * 11) mod LENGTH(160)"
    unfolding k_def q_def by (simp add: scatter_dest_pos)
  also have "word_rotl ((m * 11) mod LENGTH(160)) (ucast x :: block) = word_rotl (m * 11) (ucast x)"
    by (rule word_rotl_mod)
  finally show ?thesis .
qed

lemma XorHash0_loop_unfold:
  "XorHash0_loop rgb
     = fold (\<lambda>i ret. ret XOR word_rotl (i * 11) (ucast (rgb ! i))) [0..<length rgb] 0"
  by (simp add: XorHash0_loop_def ref_xor_def ref_rotate_def ref_extend8_def ref_zero_def)

lemma XorHash0_loop_snoc:
  "XorHash0_loop (xs @ [x]) = XorHash0_loop xs XOR word_rotl (length xs * 11) (ucast x)"
proof -
  have "fold (\<lambda>i ret. ret XOR word_rotl (i * 11) (ucast ((xs @ [x]) ! i))) [0..<length xs] (0 :: block)
      = fold (\<lambda>i ret. ret XOR word_rotl (i * 11) (ucast (xs ! i))) [0..<length xs] 0"
    by (rule fold_cong) (simp_all add: nth_append)
  then show ?thesis by (simp add: XorHash0_loop_unfold)
qed

lemma streaming_core:
  "combined (scatter (snd (read_loop xs 0 (replicate 160 0)))) = XorHash0_loop xs"
proof (induction xs rule: rev_induct)
  case Nil
  then show ?case
    by (simp add: read_loop_nil scatter_zeros combined_zeros XorHash0_loop_unfold)
next
  case (snoc x xs)
  define h where "h = snd (read_loop xs 0 (replicate 160 0))"
  have len: "length h = 160" by (simp add: h_def read_loop_length)
  have m: "length xs mod 160 < 160" by simp
  have "snd (read_loop (xs @ [x]) 0 (replicate 160 0))
      = h[length xs mod 160 := h ! (length xs mod 160) XOR x]"
    by (simp add: read_loop_snoc h_def)
  then have "combined (scatter (snd (read_loop (xs @ [x]) 0 (replicate 160 0))))
      = combined (scatter h) XOR word_rotl (length xs mod 160 * 11) (ucast x)"
    by (simp add: combined_scatter_update[OF len m])
  also have "word_rotl (length xs mod 160 * 11) (ucast x :: block)
      = word_rotl ((length xs mod 160 * 11) mod LENGTH(160)) (ucast x)"
    by (rule word_rotl_mod[symmetric])
  also have "(length xs mod 160 * 11) mod LENGTH(160) = (length xs * 11) mod LENGTH(160)"
    by (simp add: mod_mult_left_eq)
  also have "word_rotl ((length xs * 11) mod LENGTH(160)) (ucast x :: block)
      = word_rotl (length xs * 11) (ucast x)"
    by (rule word_rotl_mod)
  finally show ?case
    using snoc.IH by (simp add: h_def XorHash0_loop_snoc)
qed

lemma quick_xor_hash_value:
  "quick_xor_hash xs =
     Some (xor_block (rev (bytes_of_block (combined (scatter (snd (read_loop xs 0 (replicate 160 0)))))))
             (length_block (of_nat (length xs))))"
proof -
  obtain c h where rl: "read_loop xs 0 (replicate 160 0) = (c, h)" by fastforce
  have c: "c = of_nat (length xs)" using read_loop_count[of xs 0 "replicate 160 0"] rl by simp
  have lh: "length h = 160" using read_loop_length[of xs 0 "replicate 160 0"] rl by simp
  have "length (scatter h) = 8" "\<forall>k<8. length (scatter h ! k) = 20"
    by (simp_all add: scatter_length scatter_nth_length)
  from combine_loop_1_8[OF this] obtain bs' where
    A: "combine_loop [1..<8] (scatter h) = Some bs'" and B: "length (bs' ! 0) = 20"
    and C: "block_of_bytes (bs' ! 0) = combined (scatter h)"
    unfolding combined_unfold by blast
  have "bytes_of_block (block_of_bytes (bs' ! 0)) = bs' ! 0"
    by (rule bytes_of_block_inverse[OF B])
  then have D: "bs' ! 0 = bytes_of_block (combined (scatter h))" by (simp add: C)
  have "quick_xor_hash xs = Some (xor_block (reverse_block (bs' ! 0)) (length_block c))"
    using A rl by (simp add: quick_xor_hash_def BLOCK_UNIT_SIZE_def BYTES_PER_BLOCK_def)
  also have "reverse_block (bs' ! 0) = rev (bs' ! 0)" by (rule reverse_block_rev[OF B])
  finally show ?thesis by (simp add: rl D c)
qed

section \<open>The length block and the digest\<close>

lemma replicate_12: "replicate 12 x = [x, x, x, x, x, x, x, x, x, x, x, x]"
  by (simp add: numeral_eq_Suc)

lemma replicate_20: "replicate 20 x = [x, x, x, x, x, x, x, x, x, x, x, x, x, x, x, x, x, x, x, x]"
  by (simp add: numeral_eq_Suc)

lemma length_block_eq:
  "length_block c =
     [ucast (drop_bit 56 c), ucast (drop_bit 48 c), ucast (drop_bit 40 c), ucast (drop_bit 32 c),
      ucast (drop_bit 24 c), ucast (drop_bit 16 c), ucast (drop_bit 8 c), ucast c,
      0, 0, 0, 0, 0, 0, 0, 0, 0, 0, 0, 0]"
proof -
  have l: "[0..<8] = [0, 1, 2, 3, 4, 5, 6, 7::nat]" by (simp add: upt_conv_Cons)
  have r: "replicate BYTES_PER_BLOCK (0::byte) = [0, 0, 0, 0, 0, 0, 0, 0, 0, 0, 0, 0, 0, 0, 0, 0, 0, 0, 0, 0]"
    unfolding BYTES_PER_BLOCK_def by (rule replicate_20)
  show ?thesis unfolding length_block_def l r by simp
qed

lemma length_length_block: "length (length_block c) = 20"
  by (simp add: length_block_eq)

lemma length_block_split:
  "length_block c = map (\<lambda>i. ucast (drop_bit (8 * (7 - i)) c)) [0..<8] @ replicate 12 0"
proof -
  have l: "[0..<8] = [0, 1, 2, 3, 4, 5, 6, 7::nat]" by (simp add: upt_conv_Cons)
  show ?thesis unfolding l replicate_12 length_block_eq by simp
qed

lemma length_block_nth_low:
  assumes "i < 8" shows "length_block c ! i = ucast (drop_bit (8 * (7 - i)) c)"
  using assms by (simp add: length_block_split nth_append)

lemma length_block_nth_high:
  assumes "8 \<le> i" "i < 20" shows "length_block c ! i = 0"
proof -
  have "length_block c =
     [ucast (drop_bit 56 c), ucast (drop_bit 48 c), ucast (drop_bit 40 c), ucast (drop_bit 32 c),
      ucast (drop_bit 24 c), ucast (drop_bit 16 c), ucast (drop_bit 8 c), ucast c] @ replicate 12 0"
    unfolding replicate_12 by (simp add: length_block_eq)
  then show ?thesis using assms by (simp add: nth_append)
qed

lemma length_block_bit:
  assumes "n < 64"
  shows "bit c n = bit (length_block c ! (7 - n div 8)) (n mod 8)"
proof -
  have d: "n div 8 < 8" using assms by simp
  then have "7 - (7 - n div 8) = n div 8" by simp
  moreover have "n mod 8 < 8" by simp
  ultimately show ?thesis using d
    by (simp add: length_block_nth_low bit_ucast_iff bit_drop_bit_eq)
qed

lemma length_block_inj:
  assumes "length_block c = length_block d" shows "c = d"
proof (rule bit_word_eqI)
  fix n assume "n < LENGTH(64)"
  then have "n < 64" by simp
  then show "bit c n = bit d n" using assms by (simp add: length_block_bit)
qed

lemma xor_block_cancel:
  assumes "length a = length b" "length a = length c" "xor_block a b = xor_block a c"
  shows "b = c"
proof (rule nth_equalityI)
  show "length b = length c" using assms by simp
next
  fix i assume "i < length b"
  then have i: "i < length a" using assms by simp
  have "xor_block a b ! i = xor_block a c ! i" using assms(3) by simp
  then have "a ! i XOR b ! i = a ! i XOR c ! i" using i by (simp add: nth_xor_block)
  then have "a ! i XOR (a ! i XOR b ! i) = a ! i XOR (a ! i XOR c ! i)" by simp
  then show "b ! i = c ! i" by (simp flip: xor.assoc)
qed

lemma xor_block_commute:
  assumes "length a = length b" shows "xor_block a b = xor_block b a"
  using assms by (intro nth_equalityI) (simp_all add: nth_xor_block xor.commute)

lemma bytes_of_block_zero: "bytes_of_block 0 = replicate 20 0"
  by (intro nth_equalityI) (simp_all add: nth_bytes_of_block byte_at_def)

lemma read_loop_append_zeros:
  "snd (read_loop (xs @ replicate k 0) 0 (replicate 160 0)) = snd (read_loop xs 0 (replicate 160 0))"
proof (induction k)
  case 0
  then show ?case by simp
next
  case (Suc k)
  have "xs @ replicate (Suc k) 0 = (xs @ replicate k 0) @ [0]"
    by (simp add: replicate_append_same)
  then have "snd (read_loop (xs @ replicate (Suc k) 0) 0 (replicate 160 0))
      = snd (read_loop ((xs @ replicate k 0) @ [0]) 0 (replicate 160 0))"
    by (rule arg_cong)
  also have "\<dots> = snd (read_loop (xs @ replicate k 0) 0 (replicate 160 0))"
    by (subst read_loop_snoc) simp_all
  finally show ?case using Suc by simp
qed

lemma quick_xor_hash_empty: "quick_xor_hash [] = Some (replicate 20 0)"
proof -
  have lb: "length_block 0 = replicate 20 0"
    unfolding replicate_20 by (simp add: length_block_eq)
  have rl: "snd (read_loop [] 0 (replicate 160 0)) = replicate 160 0"
    by (simp add: read_loop_nil)
  have "quick_xor_hash [] = Some (xor_block (rev (bytes_of_block 0)) (length_block 0))"
    unfolding quick_xor_hash_value rl scatter_zeros combined_zeros by simp
  also have "rev (bytes_of_block 0) = replicate 20 0" by (simp add: bytes_of_block_zero)
  finally show ?thesis unfolding lb by (simp add: xor_block_zeros)
qed

lemma word_of_nat_neq:
  assumes "a mod 2 ^ 64 \<noteq> b mod 2 ^ 64"
  shows "(of_nat a :: 64 word) \<noteq> of_nat b"
  using assms by (simp add: word_of_nat_eq_iff take_bit_eq_mod)

lemma quick_xor_hash_append_zeros:
  assumes "length xs mod 2 ^ 64 \<noteq> (length xs + k) mod 2 ^ 64"
  shows "quick_xor_hash (xs @ replicate k 0) \<noteq> quick_xor_hash xs"
proof
  define r where "r = rev (bytes_of_block (combined (scatter (snd (read_loop xs 0 (replicate 160 0))))))"
  have lr: "length r = 20" by (simp add: r_def)
  assume "quick_xor_hash (xs @ replicate k 0) = quick_xor_hash xs"
  then have e: "xor_block r (length_block (of_nat (length xs + k)))
      = xor_block r (length_block (of_nat (length xs)))"
    unfolding quick_xor_hash_value read_loop_append_zeros r_def[symmetric] by simp
  have "length_block (of_nat (length xs + k)) = length_block (of_nat (length xs))"
    by (rule xor_block_cancel[OF _ _ e]) (simp_all add: lr length_length_block)
  then have "(of_nat (length xs + k) :: 64 word) = of_nat (length xs)"
    by (rule length_block_inj)
  with word_of_nat_neq[OF assms] show False by simp
qed

lemma read_loop_column:
  assumes "i < 160"
  shows "snd (read_loop xs 0 (replicate 160 0)) ! i
     = fold (XOR) (map ((!) xs) (filter (\<lambda>j. j mod 160 = i) [0..<length xs])) 0"
proof (induction xs rule: rev_induct)
  case Nil
  then show ?case using assms by (simp add: read_loop_nil)
next
  case (snoc x xs)
  define h where "h = snd (read_loop xs 0 (replicate 160 0))"
  have len: "length h = 160" by (simp add: h_def read_loop_length)
  have old: "map ((!) (xs @ [x])) (filter (\<lambda>j. j mod 160 = i) [0..<length xs])
      = map ((!) xs) (filter (\<lambda>j. j mod 160 = i) [0..<length xs])"
    by (rule map_cong) (simp_all add: nth_append)
  have L: "snd (read_loop (xs @ [x]) 0 (replicate 160 0)) ! i
      = (if i = length xs mod 160 then h ! i XOR x else h ! i)"
    using assms len by (simp add: read_loop_snoc h_def[symmetric] nth_list_update)
  have R: "fold (XOR) (map ((!) (xs @ [x])) (filter (\<lambda>j. j mod 160 = i) [0..<length (xs @ [x])])) 0
      = (if length xs mod 160 = i
         then x XOR fold (XOR) (map ((!) xs) (filter (\<lambda>j. j mod 160 = i) [0..<length xs])) 0
         else fold (XOR) (map ((!) xs) (filter (\<lambda>j. j mod 160 = i) [0..<length xs])) 0)"
    by (simp add: old)
  show ?case
    unfolding L R using snoc.IH by (auto simp add: h_def xor.commute)
qed

lemma read_loop_chunk:
  assumes "length chunk = 160"
  shows "read_loop (chunk @ rest) c h = read_loop rest (c + 160) (xor_block h chunk)"
  using assms by (subst read_loop_full) simp_all

lemma read_loop_terminal:
  assumes "length chunk < 160" "length h = 160"
  shows "fst (read_loop chunk c h) = c + of_nat (length chunk)"
    and "length (snd (read_loop chunk c h)) = 160"
    and "i < 160 \<Longrightarrow> snd (read_loop chunk c h) ! i
           = (if i < length chunk then h ! i XOR chunk ! i else h ! i)"
  using assms by (simp_all add: read_loop_short nth_xor_block nth_append)

lemma bytes_of_block_short:
  assumes "length b \<le> 20"
  shows "bytes_of_block (block_of_bytes b) = b @ replicate (20 - length b) 0"
proof (rule nth_equalityI)
  show "length (bytes_of_block (block_of_bytes b)) = length (b @ replicate (20 - length b) 0)"
    using assms by simp
next
  fix i assume "i < length (bytes_of_block (block_of_bytes b))"
  then have i: "i < 20" by simp
  show "bytes_of_block (block_of_bytes b) ! i = (b @ replicate (20 - length b) 0) ! i"
  proof (rule bit_word_eqI)
    fix n assume "n < LENGTH(8)"
    then have n: "n < 8" by simp
    then have "8 * i + n < 160" "(8 * i + n) div 8 = i" "(8 * i + n) mod 8 = n" using i by simp_all
    then show "bit (bytes_of_block (block_of_bytes b) ! i) n = bit ((b @ replicate (20 - length b) 0) ! i) n"
      using i n by (simp add: nth_bytes_of_block bit_byte_at bit_block_of_bytes nth_append)
  qed
qed

lemma bytes_of_block_ref_reverse: "bytes_of_block (ref_reverse w) = rev (bytes_of_block w)"
proof -
  have "ref_reverse w = block_of_bytes (rev (bytes_of_block w))"
    by (simp add: ref_reverse_def block_of_bytes_def bytes_of_block_def BYTES_PER_BLOCK_def)
  then show ?thesis by (simp add: bytes_of_block_inverse)
qed

lemma bytes_of_block_ref_extend64: "bytes_of_block (ref_extend64 c) = length_block c"
proof -
  have l: "[0..<8] = [0, 1, 2, 3, 4, 5, 6, 7::nat]" by (simp add: upt_conv_Cons)
  have "ref_extend64 c = block_of_bytes (rev (map (byte_at c) [0..<8]))"
    by (simp add: ref_extend64_def block_of_bytes_def)
  then have "bytes_of_block (ref_extend64 c) = rev (map (byte_at c) [0..<8]) @ replicate 12 0"
    by (simp add: bytes_of_block_short)
  also have "\<dots> = length_block c"
    unfolding l replicate_12 length_block_eq by (simp add: byte_at_def)
  finally show ?thesis .
qed

lemma quick_xor_hash_refines: "quick_xor_hash rgb = Some (bytes_of_block (XorHash rgb))"
proof -
  have "bytes_of_block (XorHash rgb)
      = xor_block (length_block (of_nat (length rgb))) (rev (bytes_of_block (XorHash0_loop rgb)))"
    by (simp add: XorHash_def ref_xor_def XorHash0_def bytes_of_block_xor
        bytes_of_block_ref_extend64 bytes_of_block_ref_reverse)
  also have "\<dots> = xor_block (rev (bytes_of_block (XorHash0_loop rgb))) (length_block (of_nat (length rgb)))"
    by (rule xor_block_commute) (simp add: length_length_block)
  finally show ?thesis by (simp add: quick_xor_hash_value streaming_core)
qed

section \<open>Claims about the block operations\<close>

text \<open>
  C4, as amended.  For a 20-byte block and a shift of at most 8, \<^verbatim>\<open>rotate_block\<close> returns
  a 20-byte block whose 160-bit value is the value of the argument rotated left by
  \<open>shift\<close> bits, the bits leaving the top of byte 19 entering at the bottom of byte 0.
\<close>

theorem rotate_block_rotates_left:
  assumes "length b = 20" and "unat n \<le> 8"
  shows "map_option block_of_bytes (rotate_block b n) = Some (word_rotl (unat n) (block_of_bytes b))
    \<and> map_option length (rotate_block b n) = Some 20"
  by (simp add: rotate_block_small[OF assms(2) assms(1)] block_of_bytes_inverse)

theorem rotate_block_rotates_left_witness:
  "map_option block_of_bytes (rotate_block (replicate 20 1) 3)
      = Some (word_rotl 3 (block_of_bytes (replicate 20 1)))
    \<and> map_option length (rotate_block (replicate 20 1) 3) = Some 20"
  using rotate_block_rotates_left[of "replicate 20 1" 3] by simp

text \<open>
  C4 as the specification words it, for every shift below 160, fails at shift 9:
  \<^verbatim>\<open>sizeof(uint8_t) * 8 - shift\<close> wraps to \<open>2 ^ 64 - 1\<close>, a shift count outside what C++
  defines, so the outcome is not the block rotated left by 9 bits.
\<close>

theorem rotate_block_shift_9_counterexample:
  "rotate_block (1 # replicate 19 0) 9 = None
    \<and> map_option block_of_bytes (rotate_block (1 # replicate 19 0) 9)
        \<noteq> Some (word_rotl 9 (block_of_bytes (1 # replicate 19 0)))"
  using rotate_block_large[of 9 "1 # replicate 19 0"] by simp

text \<open>
  C2, as amended.  The scatter loop sends byte \<open>i\<close> of the 160-byte accumulator to
  position \<open>p = (i * 11) mod 160\<close>: it is copied unchanged into block \<open>p mod 8\<close> at byte
  \<open>p div 8\<close>, and is still there when the loop has finished.
\<close>

theorem scatter_destination:
  assumes "length hash_data = 160" and "i < 160"
  shows "scatter_dest i = ((i * 11) mod 160 mod 8, (i * 11) mod 160 div 8)
    \<and> scatter hash_data ! ((i * 11) mod 160 mod 8) ! ((i * 11) mod 160 div 8) = hash_data ! i"
proof -
  have d: "scatter_dest i = ((i * 11) mod 160 mod 8, (i * 11) mod 160 div 8)"
    by (simp add: scatter_dest_def BLOCK_UNIT_SIZE_def BYTES_PER_BLOCK_def Let_def)
  with scatter_at_dest[OF assms(2), of hash_data] show ?thesis by simp
qed

theorem scatter_destination_witness:
  "scatter_dest 15 = (5, 0) \<and> scatter (map of_nat [0..<160]) ! 5 ! 0 = 15"
  using scatter_destination[of "map of_nat [0..<160]" 15] by simp

text \<open>
  C2 as the specification words it, with the modulus 1280, fails at \<open>i = 15\<close>: the
  formula gives byte 20 of block 5, which a 20-byte block does not have, while the loop
  writes byte 0 of block 5.
\<close>

theorem scatter_modulus_1280_counterexample:
  "scatter_dest 15 \<noteq> ((15 * 11) mod 1280 mod 8, (15 * 11) mod 1280 div 8)
    \<and> \<not> (15 * 11) mod 1280 div 8 < BYTES_PER_BLOCK"
  by (simp add: scatter_dest_def BLOCK_UNIT_SIZE_def BYTES_PER_BLOCK_def Let_def)

text \<open>
  C8.  The destination formula of the scatter loop is a bijection from the 160 indices of
  the accumulator onto the 8 x 20 slots of the block set: no two indices share a slot and
  every slot is hit, whatever the data.
\<close>

theorem scatter_dest_bijection:
  "bij_betw scatter_dest (set [0..<BLOCK_UNIT_SIZE]) ({..<8} \<times> {..<BYTES_PER_BLOCK})
    \<and> distinct (map scatter_dest [0..<BLOCK_UNIT_SIZE])"
proof -
  have s: "set [0..<BLOCK_UNIT_SIZE] = {..<160}"
    by (auto simp add: BLOCK_UNIT_SIZE_def BYTES_PER_BLOCK_def)
  have "inj_on scatter_dest (set [0..<BLOCK_UNIT_SIZE])"
    unfolding s by (rule scatter_dest_inj)
  then have "distinct (map scatter_dest [0..<BLOCK_UNIT_SIZE])"
    by (simp add: distinct_map)
  then show ?thesis
    unfolding s using scatter_dest_bij by (simp add: BYTES_PER_BLOCK_def)
qed

text \<open>
  C7.  On a block set of eight 20-byte blocks the combining loop succeeds; the running
  result \<^verbatim>\<open>blocks[0]\<close> then holds block 0 unrotated, XORed with block \<open>k\<close> rotated left by
  \<open>k\<close> bits over the whole 160-bit value for each \<open>k\<close> from 1 to 7.  \<^verbatim>\<open>reverse_block\<close> then
  reverses its byte order: byte \<open>i\<close> of the outcome is byte \<open>19 - i\<close> of the running result.
\<close>

theorem rotate_and_combine:
  assumes "length bs = 8" and "\<forall>k<8. length (bs ! k) = 20"
  shows "\<exists>bs'. combine_loop [1..<8] bs = Some bs'
      \<and> length (bs' ! 0) = 20
      \<and> block_of_bytes (bs' ! 0)
          = block_of_bytes (bs ! 0) XOR word_rotl 1 (block_of_bytes (bs ! 1))
            XOR word_rotl 2 (block_of_bytes (bs ! 2)) XOR word_rotl 3 (block_of_bytes (bs ! 3))
            XOR word_rotl 4 (block_of_bytes (bs ! 4)) XOR word_rotl 5 (block_of_bytes (bs ! 5))
            XOR word_rotl 6 (block_of_bytes (bs ! 6)) XOR word_rotl 7 (block_of_bytes (bs ! 7))
      \<and> reverse_block (bs' ! 0) = rev (bs' ! 0)
      \<and> (\<forall>i<20. reverse_block (bs' ! 0) ! i = bs' ! 0 ! (19 - i))"
proof -
  from combine_loop_1_8[OF assms] obtain bs' where
    A: "combine_loop [1..<8] bs = Some bs'" and B: "length (bs' ! 0) = 20"
    and C: "block_of_bytes (bs' ! 0)
          = block_of_bytes (bs ! 0) XOR word_rotl 1 (block_of_bytes (bs ! 1))
            XOR word_rotl 2 (block_of_bytes (bs ! 2)) XOR word_rotl 3 (block_of_bytes (bs ! 3))
            XOR word_rotl 4 (block_of_bytes (bs ! 4)) XOR word_rotl 5 (block_of_bytes (bs ! 5))
            XOR word_rotl 6 (block_of_bytes (bs ! 6)) XOR word_rotl 7 (block_of_bytes (bs ! 7))"
    by blast
  have D: "reverse_block (bs' ! 0) = rev (bs' ! 0)"
    by (rule reverse_block_rev[OF B])
  have E: "\<forall>i<20. reverse_block (bs' ! 0) ! i = bs' ! 0 ! (19 - i)"
    using B by (simp add: D rev_nth)
  show ?thesis
    by (intro exI[of _ bs'] conjI A B C D E)
qed

theorem rotate_and_combine_witness:
  "\<exists>bs'. combine_loop [1..<8] (replicate 8 (replicate 20 1)) = Some bs'
      \<and> length (bs' ! 0) = 20
      \<and> reverse_block (bs' ! 0) = rev (bs' ! 0)"
  using rotate_and_combine[of "replicate 8 (replicate 20 1)"] by auto

section \<open>Claims about the whole computation\<close>

text \<open>
  C3, as amended.  The length block has 20 bytes.  Its bytes 0 to 7 hold the 64-bit counter
  in big-endian order, the most significant byte at index 0 and the least significant at
  index 7; bytes 8 to 19 are zero.  The digest is the reversed combined block XORed byte
  by byte with this length block, and nothing else is done to it.
\<close>

theorem length_fold:
  "length (length_block count) = 20
    \<and> (i < 8 \<longrightarrow> length_block count ! i = ucast (drop_bit (8 * (7 - i)) count))
    \<and> (8 \<le> i \<and> i < 20 \<longrightarrow> length_block count ! i = 0)
    \<and> (\<exists>blocks. combine_loop [1..<8] (scatter (snd (read_loop input 0 (replicate BLOCK_UNIT_SIZE 0))))
            = Some blocks
          \<and> quick_xor_hash input
              = Some (xor_block (reverse_block (blocks ! 0))
                        (length_block (fst (read_loop input 0 (replicate BLOCK_UNIT_SIZE 0))))))
    \<and> (length r = 20 \<and> i < 20 \<longrightarrow>
          xor_block r (length_block count) ! i = r ! i XOR length_block count ! i)"
proof -
  define h where "h = snd (read_loop input 0 (replicate BLOCK_UNIT_SIZE 0))"
  have "length (scatter h) = 8" "\<forall>k<8. length (scatter h ! k) = 20"
    by (simp_all add: scatter_length scatter_nth_length)
  from combine_loop_1_8[OF this] obtain bs' where
    A: "combine_loop [1..<8] (scatter h) = Some bs'" by blast
  have B: "quick_xor_hash input
      = Some (xor_block (reverse_block (bs' ! 0))
                (length_block (fst (read_loop input 0 (replicate BLOCK_UNIT_SIZE 0)))))"
    unfolding quick_xor_hash_def case_prod_unfold h_def[symmetric] A by simp
  have C: "\<exists>blocks. combine_loop [1..<8] (scatter (snd (read_loop input 0 (replicate BLOCK_UNIT_SIZE 0))))
            = Some blocks
          \<and> quick_xor_hash input
              = Some (xor_block (reverse_block (blocks ! 0))
                        (length_block (fst (read_loop input 0 (replicate BLOCK_UNIT_SIZE 0)))))"
    using A B unfolding h_def by blast
  show ?thesis
    by (intro conjI impI C length_length_block)
       (simp_all add: length_block_nth_low length_block_nth_high nth_xor_block)
qed

theorem length_fold_witness:
  "length_block 0x0102030405060708 ! 0 = 1 \<and> length_block 0x0102030405060708 ! 8 = 0"
  using length_fold[of "0x0102030405060708" 0] length_fold[of "0x0102030405060708" 8]
  by simp

text \<open>
  C3 as the specification words it puts the most significant byte of the counter at the
  highest of the eight indices.  For a counter of 1 that byte is 0, but index 7 of the
  length block holds 1, the least significant byte.
\<close>

theorem length_block_msb_counterexample:
  "length_block 1 ! 7 \<noteq> ucast (drop_bit 56 (1 :: 64 word)) \<and> length_block 1 ! 7 = 1
    \<and> length_block 1 ! 0 = 0"
  by (simp add: length_block_eq)

text \<open>
  C6.  The loop folds the stream into the accumulator chunk by chunk: a full chunk of 160
  bytes is XORed in at its own offsets and the loop goes on with the rest; a short last
  chunk changes only the positions it fills.  At the end the counter is the number of
  input bytes as a 64-bit value (exactly that number below \<open>2 ^ 64\<close>), and byte \<open>i\<close> of the
  accumulator is the XOR of the input bytes at the positions congruent to \<open>i\<close> modulo 160.
  The empty stream gives counter 0 and the zero accumulator.
\<close>

theorem accumulation:
  "fst (read_loop xs 0 (replicate BLOCK_UNIT_SIZE 0)) = of_nat (length xs)
    \<and> (length xs < 2 ^ 64 \<longrightarrow>
          unat (fst (read_loop xs 0 (replicate BLOCK_UNIT_SIZE 0))) = length xs)
    \<and> length (snd (read_loop xs 0 (replicate BLOCK_UNIT_SIZE 0))) = BLOCK_UNIT_SIZE
    \<and> (i < BLOCK_UNIT_SIZE \<longrightarrow>
          snd (read_loop xs 0 (replicate BLOCK_UNIT_SIZE 0)) ! i
            = fold (XOR) (map ((!) xs) (filter (\<lambda>j. j mod BLOCK_UNIT_SIZE = i) [0..<length xs])) 0)
    \<and> (length chunk = BLOCK_UNIT_SIZE \<longrightarrow>
          read_loop (chunk @ rest) c h
            = read_loop rest (c + of_nat BLOCK_UNIT_SIZE) (xor_block h chunk))
    \<and> (length short < BLOCK_UNIT_SIZE \<and> length h = BLOCK_UNIT_SIZE \<and> i < BLOCK_UNIT_SIZE \<longrightarrow>
          fst (read_loop short c h) = c + of_nat (length short)
          \<and> snd (read_loop short c h) ! i
              = (if i < length short then h ! i XOR short ! i else h ! i))
    \<and> read_loop [] 0 (replicate BLOCK_UNIT_SIZE 0) = (0, replicate BLOCK_UNIT_SIZE 0)"
proof -
  have U: "BLOCK_UNIT_SIZE = 160" by (simp add: BLOCK_UNIT_SIZE_def BYTES_PER_BLOCK_def)
  have A: "fst (read_loop xs 0 (replicate 160 0)) = of_nat (length xs)"
    by (simp add: read_loop_count)
  have B: "unat (fst (read_loop xs 0 (replicate 160 0))) = length xs" if "length xs < 2 ^ 64"
    unfolding A by (rule of_nat_inverse[OF refl]) (use that in simp)
  show ?thesis
    unfolding U
    by (intro conjI impI A B)
       (simp_all add: read_loop_length read_loop_column read_loop_chunk read_loop_terminal
          read_loop_nil)
qed

theorem accumulation_witness:
  "unat (fst (read_loop [1, 2, 3] 0 (replicate BLOCK_UNIT_SIZE 0))) = 3
    \<and> snd (read_loop [1, 2, 3] 0 (replicate BLOCK_UNIT_SIZE 0)) ! 1 = 2"
  using accumulation[of "[1, 2, 3]" 1 "[]" "[]" 0 "[]" "[]"]
  by (simp add: BLOCK_UNIT_SIZE_def BYTES_PER_BLOCK_def upt_conv_Cons)

text \<open>
  C1.  For every byte sequence the streaming function returns a digest, and it is the
  reference value \<open>XorHash\<close> laid out in a \<^verbatim>\<open>block_t\<close>, lowest-order byte at index 0; the
  layout loses nothing of the 160-bit value.
\<close>

theorem streaming_equals_reference:
  "quick_xor_hash rgb = Some (bytes_of_block (XorHash rgb))
    \<and> length (bytes_of_block (XorHash rgb)) = 20
    \<and> block_of_bytes (bytes_of_block (XorHash rgb)) = XorHash rgb"
  by (simp add: quick_xor_hash_refines block_of_bytes_inverse)

text \<open>
  C10.  On the empty input every stage produces zeros: the accumulator and the counter
  stay zero, the scattered blocks are zero, the combined block and its reversal are zero,
  the length block of 0 is zero, and the digest is twenty zero bytes.
\<close>

theorem empty_input_digest:
  "quick_xor_hash [] = Some (replicate 20 0)
    \<and> read_loop [] 0 (replicate BLOCK_UNIT_SIZE 0) = (0, replicate BLOCK_UNIT_SIZE 0)
    \<and> scatter (replicate BLOCK_UNIT_SIZE 0) = replicate 8 (replicate BYTES_PER_BLOCK 0)
    \<and> map_option (\<lambda>blocks. blocks ! 0)
          (combine_loop [1..<8] (replicate 8 (replicate BYTES_PER_BLOCK 0)))
        = Some (replicate BYTES_PER_BLOCK 0)
    \<and> reverse_block (replicate BYTES_PER_BLOCK 0) = replicate BYTES_PER_BLOCK 0
    \<and> length_block 0 = replicate BYTES_PER_BLOCK 0"
proof -
  have lb: "length_block 0 = replicate 20 0"
    unfolding replicate_20 by (simp add: length_block_eq)
  have "length (replicate 8 (replicate 20 (0::byte))) = 8"
    "\<forall>k<8. length (replicate 8 (replicate 20 (0::byte)) ! k) = 20"
    by simp_all
  from combine_loop_1_8[OF this] obtain bs' where
    A: "combine_loop [1..<8] (replicate 8 (replicate 20 0)) = Some bs'"
    and B: "length (bs' ! 0) = 20"
    and C: "block_of_bytes (bs' ! 0) = combined (replicate 8 (replicate 20 0))"
    unfolding combined_unfold by blast
  have "bytes_of_block (block_of_bytes (bs' ! 0)) = bs' ! 0"
    by (rule bytes_of_block_inverse[OF B])
  then have D: "bs' ! 0 = replicate 20 0"
    by (simp add: C combined_zeros bytes_of_block_zero)
  have E: "reverse_block (replicate 20 (0::byte)) = replicate 20 0"
    by (simp add: reverse_block_rev)
  have F: "map_option (\<lambda>blocks. blocks ! 0)
          (combine_loop [1..<8] (replicate 8 (replicate BYTES_PER_BLOCK 0)))
        = Some (replicate BYTES_PER_BLOCK 0)"
    unfolding BYTES_PER_BLOCK_def A by (simp add: D)
  have G: "read_loop [] 0 (replicate BLOCK_UNIT_SIZE 0) = (0, replicate BLOCK_UNIT_SIZE 0)"
    by (simp add: BLOCK_UNIT_SIZE_def BYTES_PER_BLOCK_def read_loop_nil)
  have H: "scatter (replicate BLOCK_UNIT_SIZE 0) = replicate 8 (replicate BYTES_PER_BLOCK 0)"
    by (simp add: BLOCK_UNIT_SIZE_def BYTES_PER_BLOCK_def scatter_zeros)
  show ?thesis
    by (intro conjI quick_xor_hash_empty G H F)
       (simp_all add: BYTES_PER_BLOCK_def E lb)
qed

text \<open>
  C9.  Appending \<open>k\<close> zero bytes to an input leaves the accumulator as it was, so both
  digests are the same reversed block XORed with a length block; when the two lengths
  differ modulo \<open>2 ^ 64\<close> the length blocks differ, and so do the digests.
\<close>

theorem trailing_zeros_change_digest:
  assumes "1 \<le> k" and "length x mod 2 ^ 64 \<noteq> (length x + k) mod 2 ^ 64"
  shows "quick_xor_hash (x @ replicate k 0) \<noteq> quick_xor_hash x
    \<and> snd (read_loop (x @ replicate k 0) 0 (replicate BLOCK_UNIT_SIZE 0))
        = snd (read_loop x 0 (replicate BLOCK_UNIT_SIZE 0))
    \<and> length_block (of_nat (length x + k)) \<noteq> length_block (of_nat (length x))
    \<and> (\<exists>r. length r = 20
          \<and> quick_xor_hash x = Some (xor_block r (length_block (of_nat (length x))))
          \<and> quick_xor_hash (x @ replicate k 0)
              = Some (xor_block r (length_block (of_nat (length x + k)))))"
proof -
  define r where "r = rev (bytes_of_block (combined (scatter (snd (read_loop x 0 (replicate 160 0))))))"
  have lr: "length r = 20" by (simp add: r_def)
  have A: "quick_xor_hash (x @ replicate k 0) \<noteq> quick_xor_hash x"
    by (rule quick_xor_hash_append_zeros[OF assms(2)])
  have B: "snd (read_loop (x @ replicate k 0) 0 (replicate BLOCK_UNIT_SIZE 0))
        = snd (read_loop x 0 (replicate BLOCK_UNIT_SIZE 0))"
    by (simp add: BLOCK_UNIT_SIZE_def BYTES_PER_BLOCK_def read_loop_append_zeros)
  have C: "length_block (of_nat (length x + k)) \<noteq> length_block (of_nat (length x))"
    using word_of_nat_neq[OF assms(2)] length_block_inj by fastforce
  have D: "quick_xor_hash x = Some (xor_block r (length_block (of_nat (length x))))"
    unfolding quick_xor_hash_value r_def by simp
  have E: "quick_xor_hash (x @ replicate k 0)
      = Some (xor_block r (length_block (of_nat (length x + k))))"
    unfolding quick_xor_hash_value read_loop_append_zeros r_def by simp
  show ?thesis
    using A B C D E lr by blast
qed

theorem trailing_zeros_change_digest_witness:
  "quick_xor_hash ([1] @ replicate 1 0) \<noteq> quick_xor_hash [1]
    \<and> length_block (of_nat (length [1::byte] + 1)) \<noteq> length_block (of_nat (length [1::byte]))"
  using trailing_zeros_change_digest[of 1 "[1]"] by simp

text \<open>
  C5, evaluated where the code departs from it.  For a file that cannot be opened \<^verbatim>\<open>main\<close>
  prints the digest of the empty input, forty zeros, on standard output, writes nothing to
  standard error and returns 0.
\<close>

theorem main_unopenable_file:
  "main (\<lambda>name. None) [''quick_xor_hash.exe'', ''missing.bin'']
     = Some \<lparr>exit_code = 0,
              std_out = ''0000000000000000000000000000000000000000'' @ [CHR 0x0A],
              std_err = []\<rparr>"
  by (simp add: main_def quick_xor_hash_file_def quick_xor_hash_empty replicate_20
      hex_byte_def hex_digit_def)

end
